theory Spec2Isabelle
  imports Main
begin

section \<open>Strings, as \<^verbatim>\<open>migrate.py\<close> uses them\<close>

text \<open>
  Python strings are modelled as \<^typ>\<open>string\<close>; the text of a file is the text that
  \<^verbatim>\<open>open(file, 'r')\<close> yields (code points below 256, newlines already translated).
\<close>

definition PREDECESSOR_MARKER :: string where
  "PREDECESSOR_MARKER = ''-- #''"

definition startswith :: "string \<Rightarrow> string \<Rightarrow> bool" where
  "startswith s prefix = (take (length prefix) s = prefix)"

definition endswith :: "string \<Rightarrow> string \<Rightarrow> bool" where
  "endswith s suffix = (length suffix \<le> length s \<and> drop (length s - length suffix) s = suffix)"

text \<open>
  \<^verbatim>\<open>s.replace(old, new)\<close>: every non-overlapping occurrence of \<open>old\<close>, scanning from the
  left; with an empty \<open>old\<close> Python puts \<open>new\<close> before every character and at the end.
\<close>

function str_replace :: "string \<Rightarrow> string \<Rightarrow> string \<Rightarrow> string" where
  "str_replace [] old new = (if old = [] then new else [])"
| "str_replace (c # cs) old new =
     (if old = [] then new @ c # str_replace cs old new
      else if startswith (c # cs) old then new @ str_replace (drop (length old) (c # cs)) old new
      else c # str_replace cs old new)"
  by pat_completeness auto

termination
  by (relation "measure (\<lambda>(s, old, new). length s)") auto

text \<open>\<^verbatim>\<open>str.isspace\<close> on the code points below 256, and \<^verbatim>\<open>s.strip()\<close>.\<close>

definition is_space :: "char \<Rightarrow> bool" where
  "is_space c = (let n = (of_char c :: nat) in
     (9 \<le> n \<and> n \<le> 13) \<or> (28 \<le> n \<and> n \<le> 32) \<or> n = 133 \<or> n = 160)"

definition strip :: "string \<Rightarrow> string" where
  "strip s = rev (dropWhile is_space (rev (dropWhile is_space s)))"

text \<open>Iterating over a text file yields its lines, each with its newline.\<close>

fun file_lines :: "string \<Rightarrow> string list" where
  "file_lines [] = []"
| "file_lines (c # cs) =
     (if c = CHR 0x0A then [c] # file_lines cs
      else (case file_lines cs of [] \<Rightarrow> [[c]] | l # ls \<Rightarrow> (c # l) # ls))"

section \<open>Dictionaries\<close>

text \<open>
  A Python \<^verbatim>\<open>dict\<close> keeps its keys in insertion order and holds each key once: an
  association list whose keys are distinct. Assigning to a key that is present keeps its
  position.
\<close>

type_synonym 'v dict = "(string \<times> 'v) list"

definition dict_keys :: "'v dict \<Rightarrow> string list" where
  "dict_keys d = map fst d"

definition dict_set :: "string \<Rightarrow> 'v \<Rightarrow> 'v dict \<Rightarrow> 'v dict" where
  "dict_set k v d =
     (if k \<in> set (dict_keys d) then map (\<lambda>(k', v'). if k' = k then (k', v) else (k', v')) d
      else d @ [(k, v)])"

definition dict_del :: "string \<Rightarrow> 'v dict \<Rightarrow> 'v dict" where
  "dict_del k d = filter (\<lambda>(k', v'). k' \<noteq> k) d"

section \<open>The files on disk\<close>

text \<open>
  \<open>current_directory\<close> is \<^verbatim>\<open>CURRENT_DIRECTORY\<close>; \<open>listdir_up\<close> are the names in its
  \<^verbatim>\<open>up/\<close> directory in the order the operating system lists them; \<open>read_file\<close> gives
  the text of a path, \<open>None\<close> where \<^verbatim>\<open>open\<close> raises.
\<close>

record filesystem =
  current_directory :: string
  listdir_up :: "string list"
  read_file :: "string \<Rightarrow> string option"

text \<open>
  \<^verbatim>\<open>glob.glob(migrations_directory + '*.sql')\<close>: the names that end in \<^verbatim>\<open>.sql\<close> and do
  not start with a dot, each joined to the directory.
\<close>

definition glob_sql :: "string \<Rightarrow> string list \<Rightarrow> string list" where
  "glob_sql migrations_directory names =
     [migrations_directory @ name. name \<leftarrow> names, endswith name ''.sql'', \<not> startswith name ''.'']"

section \<open>The database\<close>

text \<open>
  The two tables of \<^verbatim>\<open>CREATE_MIGRATIONS_TABLE_STATEMENT\<close> in row order, the rest of the
  database as \<open>store\<close> (only the migration scripts touch it), and what the program has
  printed. \<open>journal\<close> and \<open>rounds\<close> are ghost fields: every statement on a ledger table
  records the two tables as it leaves them, and every pass of the apply loop records the
  list of revisions it is about to apply.
\<close>

datatype message =
    Finding_applied
  | Found_applied nat
  | All_applied
  | Found_to_apply nat
  | Invalid_dependencies
  | Applying string
  | Undoing string
  | Done

datatype error =
    SystemExit nat
  | KeyError string
  | FileNotFoundError string
  | ScriptError string
  | IntegrityError string

type_synonym ledger = "string list \<times> (string \<times> string) list"

record 's world =
  revision_table :: "string list"
  dependent_revision_table :: "(string \<times> string) list"
  store :: 's
  stdout :: "message list"
  journal :: "ledger list"
  rounds :: "string list list"

type_synonym 's result = "error option \<times> 's world"

definition ledger_of :: "'s world \<Rightarrow> ledger" where
  "ledger_of w = (revision_table w, dependent_revision_table w)"

definition record_ledger :: "'s world \<Rightarrow> 's world" where
  "record_ledger w = w\<lparr>journal := journal w @ [ledger_of w]\<rparr>"

definition print :: "message \<Rightarrow> 's world \<Rightarrow> 's world" where
  "print m w = w\<lparr>stdout := stdout w @ [m]\<rparr>"

text \<open>Running one statement after another; an exception skips the rest.\<close>

fun and_then :: "error option \<times> 'w \<Rightarrow> ('w \<Rightarrow> error option \<times> 'w) \<Rightarrow> error option \<times> 'w" where
  "and_then (Some e, w) f = (Some e, w)"
| "and_then (None, w) f = f w"

fun for_each :: "('a \<Rightarrow> 'w \<Rightarrow> error option \<times> 'w) \<Rightarrow> 'a list \<Rightarrow> 'w \<Rightarrow> error option \<times> 'w" where
  "for_each f [] w = (None, w)"
| "for_each f (x # xs) w = and_then (f x w) (for_each f xs)"

text \<open>
  A migration script is arbitrary SQL: \<open>exec\<close> says what it does to the store, \<open>None\<close>
  when the database raises.
\<close>

definition execute :: "(string \<Rightarrow> 's \<Rightarrow> 's option) \<Rightarrow> string \<Rightarrow> 's world \<Rightarrow> 's result" where
  "execute exec migration_command w =
     (case exec migration_command (store w) of
        None \<Rightarrow> (Some (ScriptError migration_command), w)
      | Some s \<Rightarrow> (None, w\<lparr>store := s\<rparr>))"

text \<open>\<^verbatim>\<open>INSERT_REVISION_TEMPLATE\<close>: the primary key refuses a second row of the name.\<close>

definition insert_revision :: "string \<Rightarrow> 's world \<Rightarrow> 's result" where
  "insert_revision revision_name w =
     (if revision_name \<in> set (revision_table w) then (Some (IntegrityError ''revisions_pk''), w)
      else (None, record_ledger (w\<lparr>revision_table := revision_table w @ [revision_name]\<rparr>)))"

text \<open>
  \<^verbatim>\<open>INSERT_DEPENDENT_REVISION_TEMPLATE\<close>: the primary key refuses a pair twice, the two
  foreign keys refuse a name that is not a row of \<open>revision\<close>.
\<close>

definition insert_dependent_revision :: "string \<Rightarrow> string \<Rightarrow> 's world \<Rightarrow> 's result" where
  "insert_dependent_revision parent dependent w =
     (if (parent, dependent) \<in> set (dependent_revision_table w)
        then (Some (IntegrityError ''dependent_revisions_pk''), w)
      else if parent \<notin> set (revision_table w) then (Some (IntegrityError ''parent_revision_FK''), w)
      else if dependent \<notin> set (revision_table w) then (Some (IntegrityError ''dependent_revision_FK''), w)
      else (None, record_ledger
              (w\<lparr>dependent_revision_table := dependent_revision_table w @ [(parent, dependent)]\<rparr>)))"

text \<open>\<^verbatim>\<open>DELETE_DEPENDENT_REVISION_TEMPLATE\<close>: the rows whose dependent is the name.\<close>

definition delete_dependent_revision :: "string \<Rightarrow> 's world \<Rightarrow> 's result" where
  "delete_dependent_revision revision_name w =
     (None, record_ledger
        (w\<lparr>dependent_revision_table := filter (\<lambda>(p, d). d \<noteq> revision_name) (dependent_revision_table w)\<rparr>))"

text \<open>
  \<^verbatim>\<open>DELETE_REVISION_TEMPLATE\<close>: with \<^verbatim>\<open>ON DELETE NO ACTION\<close> the row cannot go while a
  row of \<open>dependent_revision\<close> names it.
\<close>

definition delete_revision :: "string \<Rightarrow> 's world \<Rightarrow> 's result" where
  "delete_revision revision_name w =
     (if revision_name \<in> set (revision_table w) \<and>
         (\<exists>(p, d) \<in> set (dependent_revision_table w). p = revision_name \<or> d = revision_name)
        then (Some (IntegrityError ''revision_FK''), w)
      else (None, record_ledger
              (w\<lparr>revision_table := filter (\<lambda>r. r \<noteq> revision_name) (revision_table w)\<rparr>)))"

text \<open>\<^verbatim>\<open>FIND_DEPENDENT_REVISIONS\<close>.\<close>

definition find_dependent_revisions :: "string \<Rightarrow> 's world \<Rightarrow> string list" where
  "find_dependent_revisions revision_name w =
     [d. (p, d) \<leftarrow> dependent_revision_table w, p = revision_name]"

text \<open>
  \<^verbatim>\<open>with db_engine.begin() as connection\<close>: the block commits when it ends and rolls the
  database back when it raises. What was printed stays printed.
\<close>

definition transaction :: "('s world \<Rightarrow> 's result) \<Rightarrow> 's world \<Rightarrow> 's result" where
  "transaction body w =
     (case body w of
        (None, w') \<Rightarrow> (None, w')
      | (Some e, w') \<Rightarrow>
          (Some e, w'\<lparr>revision_table := revision_table w, dependent_revision_table := dependent_revision_table w,
                      store := store w\<rparr>))"

section \<open>\<^verbatim>\<open>apply_migrations\<close>\<close>

type_synonym predecessors = "(string list \<times> string list) dict"

text \<open>
  The marker lines of one forward script: every predecessor it names, and those of them
  that are not applied.
\<close>

fun read_predecessors ::
  "string list \<Rightarrow> string list \<Rightarrow> string list \<times> string list \<Rightarrow> string list \<times> string list" where
  "read_predecessors applied_migrations [] entry = entry"
| "read_predecessors applied_migrations (line # lines) (declared, outstanding) =
     (if startswith line PREDECESSOR_MARKER then
        (let predecessor_revision = strip (str_replace line PREDECESSOR_MARKER [])
         in read_predecessors applied_migrations lines
              (declared @ [predecessor_revision],
               if predecessor_revision \<notin> set applied_migrations
               then outstanding @ [predecessor_revision] else outstanding))
      else read_predecessors applied_migrations lines (declared, outstanding))"

fun read_revisions ::
  "filesystem \<Rightarrow> string list \<Rightarrow> string dict \<Rightarrow> predecessors \<Rightarrow> error + predecessors" where
  "read_revisions fs applied_migrations [] revision_to_predecessors = Inr revision_to_predecessors"
| "read_revisions fs applied_migrations ((revision, file) # rest) revision_to_predecessors =
     (case read_file fs file of
        None \<Rightarrow> Inl (FileNotFoundError file)
      | Some text \<Rightarrow>
          read_revisions fs applied_migrations rest
            (dict_set revision (read_predecessors applied_migrations (file_lines text) ([], []))
               revision_to_predecessors))"

definition no_outstanding_predecessors :: "predecessors \<Rightarrow> string list" where
  "no_outstanding_predecessors revision_to_predecessors =
     [revision. (revision, declared, outstanding) \<leftarrow> revision_to_predecessors, outstanding = []]"

text \<open>
  The body of the \<^verbatim>\<open>for\<close> loop of \<^verbatim>\<open>_apply_revisions_to_database\<close>: one migration, in a
  transaction of its own, then the bookkeeping on the dictionary.
\<close>

definition apply_transaction ::
  "(string \<Rightarrow> 's \<Rightarrow> 's option) \<Rightarrow> predecessors \<Rightarrow> string \<Rightarrow> string \<Rightarrow> 's world \<Rightarrow> 's result" where
  "apply_transaction exec revision_to_predecessors revision migration_command =
     transaction (\<lambda>w.
       and_then (execute exec migration_command w) (\<lambda>w.
       and_then (insert_revision revision w) (\<lambda>w.
         (case map_of revision_to_predecessors revision of
            None \<Rightarrow> (Some (KeyError revision), w)
          | Some (declared, outstanding) \<Rightarrow>
              for_each (\<lambda>parent_revision. insert_dependent_revision parent_revision revision)
                declared w))))"

definition apply_revision ::
  "(string \<Rightarrow> 's \<Rightarrow> 's option) \<Rightarrow> filesystem \<Rightarrow> string dict \<Rightarrow> string \<Rightarrow>
     predecessors \<times> 's world \<Rightarrow> error option \<times> predecessors \<times> 's world" where
  "apply_revision exec fs revision_to_file revision st =
     (case st of (revision_to_predecessors, w) \<Rightarrow>
       (case map_of revision_to_file revision of
          None \<Rightarrow> (Some (KeyError revision), st)
        | Some file \<Rightarrow>
           (case read_file fs file of
              None \<Rightarrow> (Some (FileNotFoundError file), st)
            | Some migration_command \<Rightarrow>
               (case apply_transaction exec revision_to_predecessors revision migration_command
                       (print (Applying revision) w) of
                  (Some e, w') \<Rightarrow> (Some e, revision_to_predecessors, w')
                | (None, w') \<Rightarrow>
                    (None,
                     map (\<lambda>(r, declared, outstanding). (r, declared, remove1 revision outstanding))
                       (dict_del revision revision_to_predecessors),
                     print Done w')))))"

lemma apply_revision_shrinks:
  "apply_revision exec fs rtf revision (rtp, w) = (None, rtp', w') \<Longrightarrow> length rtp' < length rtp"
proof -
  assume a: "apply_revision exec fs rtf revision (rtp, w) = (None, rtp', w')"
  have key: "map_of rtp revision \<noteq> None"
  proof
    assume n: "map_of rtp revision = None"
    from a n show False
      unfolding apply_revision_def apply_transaction_def transaction_def execute_def
        insert_revision_def
      by (auto split: option.splits prod.splits if_splits)
  qed
  then obtain v where "(revision, v) \<in> set rtp"
    by (auto dest: map_of_SomeD)
  then have "length (dict_del revision rtp) < length rtp"
    unfolding dict_del_def
    by (rule length_filter_less [of "(revision, v)"]) auto
  moreover from a have "length rtp' = length (dict_del revision rtp)"
    unfolding apply_revision_def
    by (auto split: option.splits prod.splits)
  ultimately show ?thesis by simp
qed

lemma for_each_apply_revision_shrinks:
  "for_each (apply_revision exec fs rtf) frontier (rtp, w) = (None, rtp', w') \<Longrightarrow>
   length rtp' + length frontier \<le> length rtp"
proof (induction frontier arbitrary: rtp w)
  case Nil
  then show ?case by simp
next
  case (Cons r frontier)
  obtain e rtp1 w1 where s: "apply_revision exec fs rtf r (rtp, w) = (e, rtp1, w1)"
    by (metis prod_cases3)
  with Cons.prems have e: "e = None" by (cases e) auto
  from s e have "length rtp1 < length rtp" by (auto dest: apply_revision_shrinks)
  moreover from Cons.prems s e have "length rtp' + length frontier \<le> length rtp1"
    by (auto dest: Cons.IH)
  ultimately show ?case by simp
qed

text \<open>
  \<^verbatim>\<open>_apply_revisions_to_database\<close>: the body of the \<^verbatim>\<open>while\<close> loop runs before the first
  test, on the list the caller passes.
\<close>

function apply_revisions_to_database ::
  "(string \<Rightarrow> 's \<Rightarrow> 's option) \<Rightarrow> filesystem \<Rightarrow> string dict \<Rightarrow> predecessors \<Rightarrow> string list \<Rightarrow>
     's world \<Rightarrow> 's result" where
  "apply_revisions_to_database exec fs revision_to_file revision_to_predecessors
      revisions_with_no_outstanding_predecessors w =
     (let pass = for_each (apply_revision exec fs revision_to_file)
                   revisions_with_no_outstanding_predecessors
                   (revision_to_predecessors,
                    w\<lparr>rounds := rounds w @ [revisions_with_no_outstanding_predecessors]\<rparr>)
      in if fst pass \<noteq> None then (fst pass, snd (snd pass))
         else if no_outstanding_predecessors (fst (snd pass)) = [] then (None, snd (snd pass))
         else apply_revisions_to_database exec fs revision_to_file (fst (snd pass))
                (no_outstanding_predecessors (fst (snd pass))) (snd (snd pass)))"
  by pat_completeness auto

termination
proof (relation "measure (\<lambda>(exec, fs, rtf, rtp, frontier, w).
                   2 * length rtp + (if frontier = [] then 1 else 0))", goal_cases)
  case 1
  show ?case by simp
next
  case (2 exec fs rtf rtp frontier w pass)
  obtain e rtp' w' where p:
    "for_each (apply_revision exec fs rtf) frontier
       (rtp, w\<lparr>rounds := rounds w @ [frontier]\<rparr>) = (e, rtp', w')"
    by (metis prod_cases3)
  with 2 have e: "e = None" by simp
  have "length rtp' + length frontier \<le> length rtp"
    using p e by (auto dest: for_each_apply_revision_shrinks)
  then show ?case using p 2 by (cases frontier) auto
qed

declare apply_revisions_to_database.simps [simp del]

text \<open>
  The first lines of \<^verbatim>\<open>apply_migrations\<close>: the files \<^verbatim>\<open>glob\<close> finds, the dictionary
  comprehension that keys each by its name without directory and \<^verbatim>\<open>.sql\<close>, and the loop
  that deletes the applied revisions from it.
\<close>

definition revision_of_file :: "string \<Rightarrow> string \<Rightarrow> string" where
  "revision_of_file migrations_directory filename =
     str_replace (str_replace filename migrations_directory []) ''.sql'' []"

definition all_revisions :: "filesystem \<Rightarrow> string list" where
  "all_revisions fs = glob_sql (current_directory fs @ ''/up/'') (listdir_up fs)"

definition load_revision_to_file :: "filesystem \<Rightarrow> string dict" where
  "load_revision_to_file fs =
     fold (\<lambda>filename. dict_set (revision_of_file (current_directory fs @ ''/up/'') filename) filename)
       (all_revisions fs) []"

text \<open>
  Line 120, in \<^verbatim>\<open>create_revision\<close>, names a forward script in another way: the path
  without its last four characters, then without the directory.
\<close>

definition previous_migration_name :: "string \<Rightarrow> string \<Rightarrow> string" where
  "previous_migration_name migrations_directory filename =
     str_replace (take (length filename - 4) filename) migrations_directory []"

definition drop_applied :: "string list \<Rightarrow> string dict \<Rightarrow> string dict" where
  "drop_applied applied_migrations revision_to_file =
     fold (\<lambda>applied_migration d.
             if applied_migration \<in> set (dict_keys d) then dict_del applied_migration d else d)
       applied_migrations revision_to_file"

definition apply_migrations ::
  "(string \<Rightarrow> 's \<Rightarrow> 's option) \<Rightarrow> filesystem \<Rightarrow> 's world \<Rightarrow> 's result" where
  "apply_migrations exec fs w0 =
     (let w1 = print Finding_applied w0;
          applied_migrations = revision_table w1;
          w2 = print (Found_applied (length applied_migrations)) w1;
          revision_to_file = drop_applied applied_migrations (load_revision_to_file fs)
      in if length revision_to_file = 0 then (None, print All_applied w2)
         else
           (let w3 = print (Found_to_apply (length revision_to_file)) w2 in
            case read_revisions fs applied_migrations revision_to_file [] of
              Inl e \<Rightarrow> (Some e, w3)
            | Inr revision_to_predecessors \<Rightarrow>
                (let revisions_with_no_outstanding_predecessors =
                       no_outstanding_predecessors revision_to_predecessors
                 in if revisions_with_no_outstanding_predecessors = [] \<and> revision_to_file \<noteq> []
                    then (Some (SystemExit 1), print Invalid_dependencies w3)
                    else apply_revisions_to_database exec fs revision_to_file
                           revision_to_predecessors revisions_with_no_outstanding_predecessors w3)))"

section \<open>\<^verbatim>\<open>remove_migration\<close>\<close>

text \<open>
  What follows the loop over the dependents: the reverse script and the two deletions, in
  one transaction.
\<close>

definition undo_revision ::
  "(string \<Rightarrow> 's \<Rightarrow> 's option) \<Rightarrow> filesystem \<Rightarrow> string \<Rightarrow> 's world \<Rightarrow> 's result" where
  "undo_revision exec fs revision_to_remove w =
     (let file_to_apply = current_directory fs @ ''/down/'' @ revision_to_remove @ ''.sql'';
          w1 = print (Undoing revision_to_remove) w
      in case read_file fs file_to_apply of
           None \<Rightarrow> (Some (FileNotFoundError file_to_apply), w1)
         | Some migration_command \<Rightarrow>
             and_then
               (transaction (\<lambda>w.
                  and_then (execute exec migration_command w) (\<lambda>w.
                  and_then (delete_dependent_revision revision_to_remove w)
                    (delete_revision revision_to_remove))) w1)
               (\<lambda>w. (None, print Done w)))"

text \<open>
  The recursion follows the rows of \<open>dependent_revision\<close> and nothing bounds its depth, so
  the model counts calls down from \<open>fuel\<close>: \<open>None\<close> says that \<open>fuel\<close> nested calls were not
  enough. The \<^verbatim>\<open>for\<close> loop runs over the list the query returned before the first
  recursive call. CPython ends a recursion that reaches its recursion limit with
  \<^verbatim>\<open>RecursionError\<close>; the model has no such limit.
\<close>

fun for_each_fuel ::
  "('a \<Rightarrow> 'w \<Rightarrow> (error option \<times> 'w) option) \<Rightarrow> 'a list \<Rightarrow> 'w \<Rightarrow> (error option \<times> 'w) option" where
  "for_each_fuel f [] w = Some (None, w)"
| "for_each_fuel f (x # xs) w =
     (case f x w of
        None \<Rightarrow> None
      | Some (Some e, w') \<Rightarrow> Some (Some e, w')
      | Some (None, w') \<Rightarrow> for_each_fuel f xs w')"

fun remove_migration ::
  "nat \<Rightarrow> (string \<Rightarrow> 's \<Rightarrow> 's option) \<Rightarrow> filesystem \<Rightarrow> string \<Rightarrow> 's world \<Rightarrow> 's result option" where
  "remove_migration 0 exec fs revision_to_remove w = None"
| "remove_migration (Suc fuel) exec fs revision_to_remove w =
     (let dependent_migrations = find_dependent_revisions revision_to_remove w in
      case for_each_fuel (remove_migration fuel exec fs) dependent_migrations w of
        None \<Rightarrow> None
      | Some (Some e, w') \<Rightarrow> Some (Some e, w')
      | Some (None, w') \<Rightarrow> Some (undo_revision exec fs revision_to_remove w'))"

section \<open>Notions the statements use\<close>

text \<open>
  The predecessors a forward script declares, read off its lines; \<open>pending\<close> is the
  dictionary \<^verbatim>\<open>revision_to_file\<close> as \<^verbatim>\<open>apply_migrations\<close> holds it after line 147, and
  \<open>declared_edges\<close> the predecessor graph of a dictionary, each edge from the predecessor
  to the migration that names it.
\<close>

definition marker_predecessors :: "string list \<Rightarrow> string list" where
  "marker_predecessors lines =
     map (\<lambda>line. strip (str_replace line PREDECESSOR_MARKER []))
       (filter (\<lambda>line. startswith line PREDECESSOR_MARKER) lines)"

definition pending :: "filesystem \<Rightarrow> 's world \<Rightarrow> string dict" where
  "pending fs w = drop_applied (revision_table w) (load_revision_to_file fs)"

definition declared_edges :: "predecessors \<Rightarrow> (string \<times> string) list" where
  "declared_edges revision_to_predecessors =
     [(p, revision). (revision, declared, outstanding) \<leftarrow> revision_to_predecessors, p \<leftarrow> declared]"

text \<open>
  Names for what the claims speak of: the predecessors a dictionary holds for a revision,
  the text of its forward script, the effect on the store of running a list of scripts
  one after the other, and the bookkeeping of lines 221 to 225 for one applied revision.
  \<open>commits\<close> says that a world differs from an earlier one by the complete effect of the
  migrations \<open>committed\<close>, in this order: for each its script, its one row in \<open>revision\<close>
  and one row in \<open>dependent_revision\<close> for every predecessor it declares.
\<close>

definition declared_of :: "predecessors \<Rightarrow> string \<Rightarrow> string list" where
  "declared_of revision_to_predecessors revision =
     (case map_of revision_to_predecessors revision of
        None \<Rightarrow> []
      | Some (declared, outstanding) \<Rightarrow> declared)"

definition script_of :: "filesystem \<Rightarrow> string dict \<Rightarrow> string \<Rightarrow> string option" where
  "script_of fs revision_to_file revision =
     (case map_of revision_to_file revision of None \<Rightarrow> None | Some path \<Rightarrow> read_file fs path)"

fun run_scripts :: "(string \<Rightarrow> 's \<Rightarrow> 's option) \<Rightarrow> string option list \<Rightarrow> 's \<Rightarrow> 's option" where
  "run_scripts exec [] s = Some s"
| "run_scripts exec (None # scripts) s = None"
| "run_scripts exec (Some script # scripts) s =
     (case exec script s of None \<Rightarrow> None | Some s' \<Rightarrow> run_scripts exec scripts s')"

definition retire :: "string \<Rightarrow> predecessors \<Rightarrow> predecessors" where
  "retire revision revision_to_predecessors =
     map (\<lambda>(r, declared, outstanding). (r, declared, remove1 revision outstanding))
       (dict_del revision revision_to_predecessors)"

definition commits ::
  "(string \<Rightarrow> 's \<Rightarrow> 's option) \<Rightarrow> filesystem \<Rightarrow> string dict \<Rightarrow> predecessors \<Rightarrow> string list \<Rightarrow>
     's world \<Rightarrow> 's world \<Rightarrow> bool" where
  "commits exec fs revision_to_file revision_to_predecessors committed w w' =
     (revision_table w' = revision_table w @ committed \<and>
      distinct committed \<and> set committed \<inter> set (revision_table w) = {} \<and>
      dependent_revision_table w' =
        dependent_revision_table w @
        concat (map (\<lambda>revision. map (\<lambda>parent. (parent, revision))
                                  (declared_of revision_to_predecessors revision)) committed) \<and>
      list_all (\<lambda>revision. distinct (declared_of revision_to_predecessors revision) \<and>
                           map_of revision_to_predecessors revision \<noteq> None) committed \<and>
      run_scripts exec (map (script_of fs revision_to_file) committed) (store w) = Some (store w'))"

text \<open>
  The foreign keys of \<open>dependent_revision\<close> on a pair of tables, and what a rollback that
  has undone the revisions \<open>undone\<close> has done to the tables.
\<close>

definition foreign_keys_hold :: "ledger \<Rightarrow> bool" where
  "foreign_keys_hold l = (\<forall>(p, d) \<in> set (snd l). p \<in> set (fst l) \<and> d \<in> set (fst l))"

definition rolled_back :: "string list \<Rightarrow> 's world \<Rightarrow> 's world \<Rightarrow> bool" where
  "rolled_back undone w w' =
     (revision_table w' = filter (\<lambda>r. r \<notin> set undone) (revision_table w) \<and>
      dependent_revision_table w' =
        filter (\<lambda>(p, d). d \<notin> set undone) (dependent_revision_table w) \<and>
      rounds w' = rounds w \<and>
      (foreign_keys_hold (ledger_of w) \<longrightarrow> foreign_keys_hold (ledger_of w')) \<and>
      (\<exists>js. journal w' = journal w @ js \<and>
            (foreign_keys_hold (ledger_of w) \<longrightarrow> (\<forall>l \<in> set js. foreign_keys_hold l))))"

text \<open>
  Rolling back a list of targets, one call of \<^verbatim>\<open>remove_migration\<close> after the other (one
  \<^verbatim>\<open>down\<close> command each), until one of them raises.
\<close>

definition rollback_all ::
  "nat \<Rightarrow> (string \<Rightarrow> 's \<Rightarrow> 's option) \<Rightarrow> filesystem \<Rightarrow> string list \<Rightarrow> 's world \<Rightarrow> 's result option" where
  "rollback_all fuel exec fs targets w = for_each_fuel (remove_migration fuel exec fs) targets w"

text \<open>
  \<open>depends_on rtp M\<close> are \<open>M\<close> and the entries of the dictionary that declare, directly
  or through others, \<open>M\<close> as a predecessor. A set of revisions is \<open>blocked\<close> in a
  dictionary when each of them is a key and every entry of it still has an outstanding
  predecessor that is blocked too, or is not a key of the dictionary, or is listed twice.
\<close>

inductive_set depends_on :: "predecessors \<Rightarrow> string \<Rightarrow> string set"
  for revision_to_predecessors :: predecessors and M :: string where
    self: "M \<in> depends_on revision_to_predecessors M"
  | step: "x \<in> depends_on revision_to_predecessors M \<Longrightarrow>
           (revision, declared, outstanding) \<in> set revision_to_predecessors \<Longrightarrow>
           x \<in> set declared \<Longrightarrow> revision \<in> depends_on revision_to_predecessors M"

definition blocked :: "predecessors \<Rightarrow> string set \<Rightarrow> bool" where
  "blocked revision_to_predecessors S =
     (\<forall>s \<in> S. s \<in> set (dict_keys revision_to_predecessors) \<and>
        (\<forall>declared outstanding. (s, declared, outstanding) \<in> set revision_to_predecessors \<longrightarrow>
           (\<exists>x \<in> set outstanding.
              x \<in> S \<or> x \<notin> set (dict_keys revision_to_predecessors) \<or>
              2 \<le> count_list outstanding x)))"

text \<open>
  \<open>rounds_in_order\<close>: every revision of a round finds each of its declared predecessors
  that is a key of the dictionary in an earlier round. \<open>tracks rtp0 rtp gone\<close> relates the
  dictionary at the start of a pass to the one the loop started with, \<open>gone\<close> being the
  revisions applied so far: the keys left are the others, and the outstanding list of an
  entry holds, once each, the declared predecessors that are still keys.
\<close>

definition rounds_in_order :: "predecessors \<Rightarrow> string list list \<Rightarrow> bool" where
  "rounds_in_order revision_to_predecessors rs =
     (\<forall>i < length rs. \<forall>r \<in> set (rs ! i). \<forall>p \<in> set (declared_of revision_to_predecessors r).
        p \<in> set (dict_keys revision_to_predecessors) \<longrightarrow> (\<exists>j < i. p \<in> set (rs ! j)))"

definition tracks :: "predecessors \<Rightarrow> predecessors \<Rightarrow> string list \<Rightarrow> bool" where
  "tracks rtp0 rtp gone =
     (distinct (dict_keys rtp) \<and> set (dict_keys rtp) = set (dict_keys rtp0) - set gone \<and>
      (\<forall>(r, d, out) \<in> set rtp.
         d = declared_of rtp0 r \<and> distinct out \<and>
         set out = {p \<in> set d. p \<in> set (dict_keys rtp)}))"

section \<open>Example runs\<close>

text \<open>
  A store that is the list of the scripts run on it, a world with the given tables and
  nothing else, a disk given by the names in \<^verbatim>\<open>up/\<close> and the text of each path, and a
  database that refuses one script.
\<close>

definition log_exec :: "string \<Rightarrow> string list \<Rightarrow> string list option" where
  "log_exec migration_command s = Some (s @ [migration_command])"

definition world_with :: "string list \<Rightarrow> (string \<times> string) list \<Rightarrow> string list world" where
  "world_with revisions edges =
     \<lparr>revision_table = revisions, dependent_revision_table = edges, store = [],
      stdout = [], journal = [], rounds = []\<rparr>"

definition disk :: "string list \<Rightarrow> (string \<times> string) list \<Rightarrow> filesystem" where
  "disk names texts = \<lparr>current_directory = ''/m'', listdir_up = names, read_file = map_of texts\<rparr>"

definition fail_on :: "string \<Rightarrow> string \<Rightarrow> string list \<Rightarrow> string list option" where
  "fail_on bad migration_command s =
     (if migration_command = bad then None else Some (s @ [migration_command]))"

definition fs_duplicate :: filesystem where
  "fs_duplicate =
     disk [''a.sql'', ''a.sql.sql'']
       [(''/m/up/a.sql'', ''create table first_a ();''),
        (''/m/up/a.sql.sql'', ''create table second_a ();'')]"

definition fs_single :: filesystem where
  "fs_single = disk [''A.sql''] [(''/m/up/A.sql'', ''create table a ();'')]"

definition fs_mutual :: filesystem where
  "fs_mutual =
     disk [''E.sql'', ''F.sql'']
       [(''/m/up/E.sql'', ''-- # F'' @ [CHR 0x0A] @ ''create table e ();''),
        (''/m/up/F.sql'', ''-- # E'' @ [CHR 0x0A] @ ''create table f ();'')]"

definition fs_self :: filesystem where
  "fs_self = disk [''S.sql''] [(''/m/up/S.sql'', ''-- # S'' @ [CHR 0x0A] @ ''create table s ();'')]"

definition fs_cycle_beside :: filesystem where
  "fs_cycle_beside =
     disk [''A.sql'', ''E.sql'', ''F.sql'']
       [(''/m/up/A.sql'', ''create table a ();''),
        (''/m/up/E.sql'', ''-- # F'' @ [CHR 0x0A] @ ''create table e ();''),
        (''/m/up/F.sql'', ''-- # E'' @ [CHR 0x0A] @ ''create table f ();'')]"

definition fs_diamond :: filesystem where
  "fs_diamond =
     disk [''A.sql'', ''B.sql'', ''C.sql'', ''D.sql'']
       [(''/m/up/A.sql'', ''create table a ();''),
        (''/m/up/B.sql'', ''-- # A'' @ [CHR 0x0A] @ ''create table b ();''),
        (''/m/up/C.sql'', ''-- # A'' @ [CHR 0x0A] @ ''create table c ();''),
        (''/m/up/D.sql'', ''-- # B'' @ [CHR 0x0A] @ ''-- # C'' @ [CHR 0x0A] @ ''create table d ();''),
        (''/m/down/A.sql'', ''drop table a;''), (''/m/down/B.sql'', ''drop table b;''),
        (''/m/down/C.sql'', ''drop table c;''), (''/m/down/D.sql'', ''drop table d;'')]"

definition diamond_applied :: "string list world" where
  "diamond_applied =
     world_with [''A'', ''B'', ''C'', ''D'']
       [(''A'', ''B''), (''A'', ''C''), (''B'', ''D''), (''C'', ''D'')]"

definition fs_down_only :: filesystem where
  "fs_down_only = disk [] [(''/m/down/X.sql'', ''drop table x;'')]"

definition fs_repeated :: filesystem where
  "fs_repeated =
     disk [''A.sql'', ''B.sql'', ''C.sql'']
       [(''/m/up/A.sql'', ''create table a ();''),
        (''/m/up/B.sql'', ''-- # A'' @ [CHR 0x0A] @ ''-- # A'' @ [CHR 0x0A] @ ''create table b ();''),
        (''/m/up/C.sql'', ''-- # B'' @ [CHR 0x0A] @ ''create table c ();'')]"

definition fs_repeated_cycle :: filesystem where
  "fs_repeated_cycle =
     disk [''M.sql'', ''P.sql'']
       [(''/m/up/M.sql'', ''-- # P'' @ [CHR 0x0A] @ ''-- # P'' @ [CHR 0x0A] @ ''create table m ();''),
        (''/m/up/P.sql'', ''-- # M'' @ [CHR 0x0A] @ ''create table p ();'')]"

definition fs_twice :: filesystem where
  "fs_twice =
     disk [''A.sql'', ''B.sql'']
       [(''/m/up/A.sql'', ''create table a ();''),
        (''/m/up/B.sql'', ''-- # A'' @ [CHR 0x0A] @ ''-- # A'' @ [CHR 0x0A] @ ''create table b ();'')]"

definition fs_partial :: filesystem where
  "fs_partial =
     disk [''A.sql'', ''B.sql'']
       [(''/m/up/A.sql'', ''create table a ();''),
        (''/m/up/B.sql'', ''-- # Z'' @ [CHR 0x0A] @ ''-- # Z'' @ [CHR 0x0A] @ ''create table b ();'')]"

section \<open>Facts about the dictionaries\<close>

lemma dict_keys_dict_set:
  "set (dict_keys (dict_set k v d)) = insert k (set (dict_keys d))"
  by (auto simp: dict_set_def dict_keys_def split: if_splits prod.splits) force+

lemma dict_keys_dict_set_list:
  "dict_keys (dict_set k v d) = (if k \<in> set (dict_keys d) then dict_keys d else dict_keys d @ [k])"
  by (induction d) (auto simp: dict_set_def dict_keys_def split: prod.splits)

lemma distinct_dict_set:
  "distinct (dict_keys d) \<Longrightarrow> distinct (dict_keys (dict_set k v d))"
  by (simp add: dict_keys_dict_set_list)

lemma map_of_dict_set:
  "map_of (dict_set k v d) = (map_of d)(k \<mapsto> v)"
proof (cases "k \<in> set (dict_keys d)")
  case True
  have "map_of (map (\<lambda>(k', v'). if k' = k then (k', v) else (k', v')) d) x =
          (if x = k then (if k \<in> fst ` set d then Some v else None) else map_of d x)" for x
    by (induction d) (auto split: prod.splits if_splits)
  with True show ?thesis
    by (simp add: dict_set_def dict_keys_def fun_eq_iff)
next
  case False
  then have "map_of d k = None"
    by (simp add: dict_keys_def map_of_eq_None_iff)
  with False show ?thesis
    by (auto simp: dict_set_def map_add_def fun_eq_iff split: option.splits)
qed

lemma fold_dict_set_keys:
  "distinct (dict_keys d) \<Longrightarrow> distinct (dict_keys (fold (\<lambda>x. dict_set (key x) x) xs d))"
  by (induction xs arbitrary: d) (auto simp: distinct_dict_set)

lemma fold_dict_set_lookup:
  "map_of (fold (\<lambda>x. dict_set (key x) x) xs d) k =
     (case filter (\<lambda>x. key x = k) xs of [] \<Rightarrow> map_of d k | y # ys \<Rightarrow> Some (last (y # ys)))"
proof (induction xs arbitrary: d)
  case Nil
  show ?case by simp
next
  case (Cons x xs)
  show ?case
    by (simp add: Cons.IH map_of_dict_set split: list.splits)
qed

lemma drop_applied_filter:
  "drop_applied applied_migrations d = filter (\<lambda>(k, v). k \<notin> set applied_migrations) d"
proof (induction applied_migrations arbitrary: d)
  case Nil
  show ?case by (simp add: drop_applied_def)
next
  case (Cons a as)
  have step: "(if a \<in> set (dict_keys d) then dict_del a d else d) = filter (\<lambda>(k, v). k \<noteq> a) d"
    by (force simp: dict_del_def dict_keys_def intro!: filter_True [symmetric])
  have "drop_applied (a # as) d = drop_applied as (filter (\<lambda>(k, v). k \<noteq> a) d)"
    using step by (simp add: drop_applied_def)
  then show ?case
    by (auto simp: Cons.IH intro!: filter_cong)
qed

section \<open>Claim C8: two files with one identifier\<close>

text \<open>
  Loading the catalog cannot fail: the dictionary comprehension of \<^verbatim>\<open>apply_migrations\<close>
  holds every identifier once, and an identifier that several of the discovered files
  share is mapped to the one \<^verbatim>\<open>glob\<close> lists last.
\<close>

lemma load_revision_to_file_lookup:
  "distinct (dict_keys (load_revision_to_file fs)) \<and>
   map_of (load_revision_to_file fs) revision =
     (case filter (\<lambda>filename. revision_of_file (current_directory fs @ ''/up/'') filename = revision)
             (all_revisions fs) of
        [] \<Rightarrow> None
      | file # files \<Rightarrow> Some (last (file # files)))"
proof -
  have "distinct (dict_keys ([] :: string dict))"
    by (simp add: dict_keys_def)
  then show ?thesis
    unfolding load_revision_to_file_def
    by (simp add: fold_dict_set_keys fold_dict_set_lookup cong: list.case_cong)
qed

text \<open>
  C8 at an input where the code departs from it. \<^verbatim>\<open>a.sql\<close> and \<^verbatim>\<open>a.sql.sql\<close> both match
  \<^verbatim>\<open>*.sql\<close>. Line 143 takes \<^verbatim>\<open>.sql\<close> away with \<^verbatim>\<open>str.replace\<close>, which removes every
  occurrence, so the two files get the one identifier \<^verbatim>\<open>a\<close>; line 120 cuts the last four
  characters off and tells them apart. The dictionary holds \<^verbatim>\<open>a\<close> once, for the file
  listed last. No error is raised: the run reports success and has executed the second
  file only, the first is never read.
\<close>

theorem duplicate_revision_is_shadowed:
  "all_revisions fs_duplicate = [''/m/up/a.sql'', ''/m/up/a.sql.sql''] \<and>
   revision_of_file ''/m/up/'' ''/m/up/a.sql'' = ''a'' \<and>
   revision_of_file ''/m/up/'' ''/m/up/a.sql.sql'' = ''a'' \<and>
   previous_migration_name ''/m/up/'' ''/m/up/a.sql'' = ''a'' \<and>
   previous_migration_name ''/m/up/'' ''/m/up/a.sql.sql'' = ''a.sql'' \<and>
   load_revision_to_file fs_duplicate = [(''a'', ''/m/up/a.sql.sql'')] \<and>
   apply_migrations log_exec fs_duplicate (world_with [] []) =
     (None, \<lparr>revision_table = [''a''], dependent_revision_table = [],
             store = [''create table second_a ();''],
             stdout = [Finding_applied, Found_applied 0, Found_to_apply 1, Applying ''a'', Done],
             journal = [([''a''], [])], rounds = [[''a'']]\<rparr>)"
  by code_simp

section \<open>One migration's transaction\<close>

lemma journal_only_refl [simp]: "\<exists>j. w = w\<lparr>journal := j\<rparr>"
  by (rule exI [of _ "journal w"]) simp

lemma for_each_insert_dependent_revision:
  "for_each (\<lambda>parent. insert_dependent_revision parent r) ps w = (out, w') \<Longrightarrow>
   (\<exists>j. w' = w\<lparr>dependent_revision_table := dependent_revision_table w', journal := j\<rparr>) \<and>
   (out = None \<longrightarrow>
      dependent_revision_table w' = dependent_revision_table w @ map (\<lambda>p. (p, r)) ps \<and>
      distinct ps \<and> set ps \<subseteq> set (revision_table w) \<and>
      (\<forall>p \<in> set ps. (p, r) \<notin> set (dependent_revision_table w))) \<and>
   out \<noteq> Some (SystemExit n)"
proof (induction ps arbitrary: w)
  case Nil
  then show ?case by (auto intro: journal_only_refl)
next
  case (Cons p ps)
  show ?case
  proof (cases "fst (insert_dependent_revision p r w)")
    case None
    then have ok: "(p, r) \<notin> set (dependent_revision_table w)" "p \<in> set (revision_table w)"
      and ins: "insert_dependent_revision p r w =
        (None, record_ledger (w\<lparr>dependent_revision_table := dependent_revision_table w @ [(p, r)]\<rparr>))"
      by (auto simp: insert_dependent_revision_def split: if_splits)
    let ?w1 = "record_ledger (w\<lparr>dependent_revision_table := dependent_revision_table w @ [(p, r)]\<rparr>)"
    from Cons.prems ins have "for_each (\<lambda>parent. insert_dependent_revision parent r) ps ?w1 = (out, w')"
      by simp
    from Cons.IH [OF this] ok show ?thesis
      by (auto simp: record_ledger_def)
  next
    case (Some e)
    then have "insert_dependent_revision p r w = (Some e, w)" "e \<noteq> SystemExit n"
      by (auto simp: insert_dependent_revision_def split: if_splits)
    with Cons.prems show ?thesis by auto
  qed
qed

lemma apply_transaction_commit:
  assumes "apply_transaction exec rtp revision cmd w = (None, w')"
  shows "\<exists>s declared outstanding j.
           exec cmd (store w) = Some s \<and> map_of rtp revision = Some (declared, outstanding) \<and>
           revision \<notin> set (revision_table w) \<and> distinct declared \<and>
           set declared \<subseteq> set (revision_table w) \<union> {revision} \<and>
           (\<forall>p \<in> set declared. (p, revision) \<notin> set (dependent_revision_table w)) \<and>
           w' = w\<lparr>revision_table := revision_table w @ [revision],
                  dependent_revision_table :=
                    dependent_revision_table w @ map (\<lambda>p. (p, revision)) declared,
                  store := s, journal := j\<rparr>"
proof -
  from assms obtain s where s: "exec cmd (store w) = Some s"
    by (auto simp: apply_transaction_def transaction_def execute_def split: option.splits prod.splits)
  from assms s have fresh: "revision \<notin> set (revision_table w)"
    by (auto simp: apply_transaction_def transaction_def execute_def insert_revision_def
        split: option.splits prod.splits if_splits)
  let ?w1 = "record_ledger (w\<lparr>store := s, revision_table := revision_table w @ [revision]\<rparr>)"
  from assms s fresh obtain declared outstanding where
    d: "map_of rtp revision = Some (declared, outstanding)" and
    f: "for_each (\<lambda>parent. insert_dependent_revision parent revision) declared ?w1 = (None, w')"
    by (auto simp: apply_transaction_def transaction_def execute_def insert_revision_def
        record_ledger_def split: option.splits prod.splits if_splits)
  from for_each_insert_dependent_revision [OF f, of 0] s d fresh show ?thesis
    apply (simp add: record_ledger_def)
    apply (elim conjE exE)
    apply (rule_tac x = j in exI)
    apply auto
    done
qed

lemma apply_transaction_abort:
  assumes "apply_transaction exec rtp revision cmd w = (Some e, w')"
  shows "(\<exists>j. w' = w\<lparr>journal := j\<rparr>) \<and> e \<noteq> SystemExit n"
proof -
  have a: "\<exists>j. w2\<lparr>revision_table := revision_table w, dependent_revision_table := dependent_revision_table w,
                  store := store w\<rparr> = w\<lparr>journal := j\<rparr>"
    if "stdout w2 = stdout w" "rounds w2 = rounds w" for w2 :: "'a world"
    using that by (intro exI [of _ "journal w2"]) simp
  show ?thesis
  proof (cases "exec cmd (store w)")
    case None
    with assms show ?thesis
      by (auto simp: apply_transaction_def transaction_def execute_def intro: journal_only_refl)
  next
    case (Some s)
    show ?thesis
    proof (cases "revision \<in> set (revision_table w)")
      case True
      with assms Some show ?thesis
        by (auto simp: apply_transaction_def transaction_def execute_def insert_revision_def intro: a)
    next
      case False
      let ?w1 = "record_ledger (w\<lparr>store := s, revision_table := revision_table w @ [revision]\<rparr>)"
      show ?thesis
      proof (cases "map_of rtp revision")
        case None
        with assms Some False show ?thesis
          by (auto simp: apply_transaction_def transaction_def execute_def insert_revision_def
              record_ledger_def intro: a)
      next
        case (Some entry)
        obtain declared outstanding where entry: "entry = (declared, outstanding)" by (cases entry)
        obtain out w2 where
          f: "for_each (\<lambda>parent. insert_dependent_revision parent revision) declared ?w1 = (out, w2)"
          by (cases "for_each (\<lambda>parent. insert_dependent_revision parent revision) declared ?w1")
        from for_each_insert_dependent_revision [OF f, of n]
        have fr: "stdout w2 = stdout w" "rounds w2 = rounds w" "out \<noteq> Some (SystemExit n)"
          by (auto simp: record_ledger_def) (metis world.select_convs world.surjective world.update_convs)+
        from assms \<open>exec cmd (store w) = Some s\<close> False Some entry f
        have "out = Some e" and
          "w' = w2\<lparr>revision_table := revision_table w,
                   dependent_revision_table := dependent_revision_table w, store := store w\<rparr>"
          by (auto simp: apply_transaction_def transaction_def execute_def insert_revision_def
              record_ledger_def split: option.splits)
        with fr a show ?thesis by auto
      qed
    qed
  qed
qed

lemma apply_revision_commit:
  assumes "apply_revision exec fs rtf revision (rtp, w) = (None, rtp', w')"
  shows "\<exists>path cmd s declared outstanding.
           map_of rtf revision = Some path \<and> read_file fs path = Some cmd \<and>
           exec cmd (store w) = Some s \<and> map_of rtp revision = Some (declared, outstanding) \<and>
           revision \<notin> set (revision_table w) \<and> distinct declared \<and>
           set declared \<subseteq> set (revision_table w) \<union> {revision} \<and>
           (\<forall>p \<in> set declared. (p, revision) \<notin> set (dependent_revision_table w)) \<and>
           revision_table w' = revision_table w @ [revision] \<and>
           dependent_revision_table w' =
             dependent_revision_table w @ map (\<lambda>p. (p, revision)) declared \<and>
           store w' = s \<and> stdout w' = stdout w @ [Applying revision, Done] \<and>
           rounds w' = rounds w \<and>
           rtp' = map (\<lambda>(r, declared, outstanding). (r, declared, remove1 revision outstanding))
                    (dict_del revision rtp)"
proof -
  from assms obtain path cmd w1 where
    f: "map_of rtf revision = Some path" "read_file fs path = Some cmd" and
    t: "apply_transaction exec rtp revision cmd (print (Applying revision) w) = (None, w1)" and
    r: "w' = print Done w1"
       "rtp' = map (\<lambda>(r, declared, outstanding). (r, declared, remove1 revision outstanding))
                 (dict_del revision rtp)"
    by (auto simp: apply_revision_def split: option.splits prod.splits)
  from apply_transaction_commit [OF t] obtain s declared outstanding j where
    c: "exec cmd (store w) = Some s" "map_of rtp revision = Some (declared, outstanding)"
       "revision \<notin> set (revision_table w)" "distinct declared"
       "set declared \<subseteq> set (revision_table w) \<union> {revision}"
       "\<forall>p \<in> set declared. (p, revision) \<notin> set (dependent_revision_table w)" and
    w1: "w1 = (print (Applying revision) w)
           \<lparr>revision_table := revision_table (print (Applying revision) w) @ [revision],
            dependent_revision_table :=
              dependent_revision_table (print (Applying revision) w) @
              map (\<lambda>p. (p, revision)) declared,
            store := s, journal := j\<rparr>"
    by (auto simp: print_def)
  show ?thesis
    using f c r by (simp add: w1 print_def)
qed

lemma apply_revision_abort:
  assumes "apply_revision exec fs rtf revision (rtp, w) = (Some e, rtp', w')"
  shows "rtp' = rtp \<and> revision_table w' = revision_table w \<and>
         dependent_revision_table w' = dependent_revision_table w \<and> store w' = store w \<and>
         rounds w' = rounds w \<and>
         (stdout w' = stdout w \<or> stdout w' = stdout w @ [Applying revision]) \<and>
         e \<noteq> SystemExit n"
proof (cases "map_of rtf revision")
  case None
  with assms show ?thesis by (auto simp: apply_revision_def)
next
  case (Some path)
  show ?thesis
  proof (cases "read_file fs path")
    case None
    with assms Some show ?thesis by (auto simp: apply_revision_def)
  next
    case (Some cmd)
    with assms \<open>map_of rtf revision = Some path\<close> obtain w1 where
      t: "apply_transaction exec rtp revision cmd (print (Applying revision) w) = (Some e, w1)"
      and r: "w' = w1" "rtp' = rtp"
      by (auto simp: apply_revision_def split: option.splits prod.splits)
    from apply_transaction_abort [OF t, of n] obtain j where
      "w1 = (print (Applying revision) w)\<lparr>journal := j\<rparr>" "e \<noteq> SystemExit n"
      by auto
    with r show ?thesis
      by (simp add: print_def)
  qed
qed

lemma pass_no_exit:
  "fst (for_each (apply_revision exec fs rtf) frontier st) \<noteq> Some (SystemExit n)"
proof (induction frontier arbitrary: st)
  case Nil
  show ?case by simp
next
  case (Cons r frontier)
  obtain rtp w where st: "st = (rtp, w)" by (cases st)
  obtain e rtp1 w1 where s: "apply_revision exec fs rtf r (rtp, w) = (e, rtp1, w1)"
    by (metis prod_cases3)
  show ?case
  proof (cases e)
    case None
    with s st Cons.IH show ?thesis by simp
  next
    case (Some err)
    with s apply_revision_abort [of exec fs rtf r rtp w err rtp1 w1 n] st show ?thesis by simp
  qed
qed

lemma apply_revisions_to_database_no_exit:
  "fst (apply_revisions_to_database exec fs rtf rtp frontier w) \<noteq> Some (SystemExit n)"
proof (induction exec fs rtf rtp frontier w rule: apply_revisions_to_database.induct)
  case (1 exec fs rtf rtp frontier w)
  let ?pass = "for_each (apply_revision exec fs rtf) frontier
                 (rtp, w\<lparr>rounds := rounds w @ [frontier]\<rparr>)"
  show ?case
  proof (cases "fst ?pass \<noteq> None")
    case True
    then show ?thesis
      using pass_no_exit [of exec fs rtf frontier "(rtp, w\<lparr>rounds := rounds w @ [frontier]\<rparr>)" n]
      by (subst apply_revisions_to_database.simps) (simp add: Let_def)
  next
    case False
    show ?thesis
    proof (cases "no_outstanding_predecessors (fst (snd ?pass)) = []")
      case True
      with False show ?thesis
        by (subst apply_revisions_to_database.simps) (simp add: Let_def)
    next
      case nonempty: False
      from 1 [OF refl] False nonempty show ?thesis
        by (subst apply_revisions_to_database.simps) (simp add: Let_def)
    qed
  qed
qed

section \<open>Reading the catalog\<close>

lemma read_predecessors_eq:
  "read_predecessors applied lines (declared, outstanding) =
     (declared @ marker_predecessors lines,
      outstanding @ filter (\<lambda>p. p \<notin> set applied) (marker_predecessors lines))"
  by (induction lines arbitrary: declared outstanding)
     (auto simp: marker_predecessors_def Let_def)

lemma distinct_pending: "distinct (dict_keys (pending fs w))"
proof -
  have "distinct (dict_keys (load_revision_to_file fs))"
    unfolding load_revision_to_file_def
    by (rule fold_dict_set_keys) (simp add: dict_keys_def)
  then show ?thesis
    by (simp add: pending_def drop_applied_filter dict_keys_def distinct_map_filter)
qed

lemma pending_not_applied: "set (dict_keys (pending fs w)) \<inter> set (revision_table w) = {}"
  by (auto simp: pending_def drop_applied_filter dict_keys_def)

lemma read_revisions_eq:
  assumes "read_revisions fs applied rtf acc = Inr rtp"
    and "distinct (dict_keys rtf)" and "set (dict_keys rtf) \<inter> set (dict_keys acc) = {}"
  shows "rtp = acc @ map (\<lambda>(revision, path).
                     (revision, marker_predecessors (file_lines (the (read_file fs path))),
                      filter (\<lambda>p. p \<notin> set applied)
                        (marker_predecessors (file_lines (the (read_file fs path)))))) rtf"
  using assms
proof (induction rtf arbitrary: acc)
  case Nil
  then show ?case by simp
next
  case (Cons entry rtf)
  obtain revision path where entry: "entry = (revision, path)" by (cases entry)
  from Cons.prems(1) entry obtain body where
    t: "read_file fs path = Some body" and
    r: "read_revisions fs applied rtf
          (dict_set revision (read_predecessors applied (file_lines body) ([], [])) acc) = Inr rtp"
    by (auto split: option.splits)
  from Cons.prems entry have fresh: "revision \<notin> set (dict_keys acc)"
    by (auto simp: dict_keys_def)
  then have s: "dict_set revision (read_predecessors applied (file_lines body) ([], [])) acc =
      acc @ [(revision, read_predecessors applied (file_lines body) ([], []))]"
    by (simp add: dict_set_def)
  have "rtp = (acc @ [(revision, read_predecessors applied (file_lines body) ([], []))]) @
      map (\<lambda>(revision, path).
             (revision, marker_predecessors (file_lines (the (read_file fs path))),
              filter (\<lambda>p. p \<notin> set applied)
                (marker_predecessors (file_lines (the (read_file fs path)))))) rtf"
  proof (rule Cons.IH)
    show "read_revisions fs applied rtf
            (acc @ [(revision, read_predecessors applied (file_lines body) ([], []))]) = Inr rtp"
      using r s by simp
    show "distinct (dict_keys rtf)"
      using Cons.prems(2) by (simp add: dict_keys_def)
    show "set (dict_keys rtf) \<inter>
          set (dict_keys (acc @ [(revision, read_predecessors applied (file_lines body) ([], []))])) = {}"
      using Cons.prems(2,3) entry by (auto simp: dict_keys_def)
  qed
  then show ?case
    using entry t by (simp add: read_predecessors_eq)
qed

lemma read_revisions_pending:
  assumes "read_revisions fs (revision_table w) (pending fs w) [] = Inr rtp"
  shows "dict_keys rtp = dict_keys (pending fs w)"
    and "distinct (dict_keys rtp)"
    and "\<forall>(revision, declared, outstanding) \<in> set rtp.
           outstanding = filter (\<lambda>p. p \<notin> set (revision_table w)) declared"
proof -
  have eq: "rtp = [] @ map (\<lambda>(revision, path).
                     (revision, marker_predecessors (file_lines (the (read_file fs path))),
                      filter (\<lambda>p. p \<notin> set (revision_table w))
                        (marker_predecessors (file_lines (the (read_file fs path))))))
                  (pending fs w)"
    by (rule read_revisions_eq [OF assms distinct_pending]) (simp add: dict_keys_def)
  show k: "dict_keys rtp = dict_keys (pending fs w)"
    by (subst eq) (simp add: dict_keys_def split_def comp_def)
  show "distinct (dict_keys rtp)"
    using k distinct_pending by simp
  show "\<forall>(revision, declared, outstanding) \<in> set rtp.
           outstanding = filter (\<lambda>p. p \<notin> set (revision_table w)) declared"
    by (subst eq) auto
qed

lemma apply_migrations_unfold:
  "apply_migrations exec fs w =
     (if pending fs w = []
      then (None, print All_applied (print (Found_applied (length (revision_table w)))
                    (print Finding_applied w)))
      else (case read_revisions fs (revision_table w) (pending fs w) [] of
              Inl e \<Rightarrow>
                (Some e, print (Found_to_apply (length (pending fs w)))
                           (print (Found_applied (length (revision_table w)))
                              (print Finding_applied w)))
            | Inr rtp \<Rightarrow>
                (if no_outstanding_predecessors rtp = []
                 then (Some (SystemExit 1),
                       print Invalid_dependencies
                         (print (Found_to_apply (length (pending fs w)))
                            (print (Found_applied (length (revision_table w)))
                               (print Finding_applied w))))
                 else apply_revisions_to_database exec fs (pending fs w) rtp
                        (no_outstanding_predecessors rtp)
                        (print (Found_to_apply (length (pending fs w)))
                           (print (Found_applied (length (revision_table w)))
                              (print Finding_applied w))))))"
  by (auto simp: apply_migrations_def pending_def Let_def print_def split: sum.splits)

lemma read_revisions_no_exit:
  "read_revisions fs applied rtf acc = Inl e \<Longrightarrow> e \<noteq> SystemExit n"
  by (induction rtf arbitrary: acc) (auto split: option.splits)

lemma read_revisions_error:
  "read_revisions fs applied rtf acc = Inl e \<Longrightarrow>
   \<exists>(revision, path) \<in> set rtf. read_file fs path = None \<and> e = FileNotFoundError path"
proof (induction rtf arbitrary: acc)
  case Nil
  then show ?case by simp
next
  case (Cons entry rtf)
  obtain revision path where entry: "entry = (revision, path)" by (cases entry)
  show ?case
  proof (cases "read_file fs path")
    case None
    with Cons.prems entry show ?thesis by simp
  next
    case (Some body)
    with Cons.prems entry have
      "read_revisions fs applied rtf
         (dict_set revision (read_predecessors applied (file_lines body) ([], [])) acc) = Inl e"
      by simp
    from Cons.IH [OF this] show ?thesis by auto
  qed
qed

section \<open>Rolling back\<close>

lemma rolled_back_refl: "rolled_back [] w w"
  by (simp add: rolled_back_def)

lemma rolled_back_trans:
  assumes "rolled_back t1 w w1" and "rolled_back t2 w1 w2"
  shows "rolled_back (t1 @ t2) w w2"
proof -
  from assms(1) obtain js1 where
    r1: "revision_table w1 = filter (\<lambda>r. r \<notin> set t1) (revision_table w)" and
    e1: "dependent_revision_table w1 =
           filter (\<lambda>(p, d). d \<notin> set t1) (dependent_revision_table w)" and
    o1: "rounds w1 = rounds w" and
    f1: "foreign_keys_hold (ledger_of w) \<longrightarrow> foreign_keys_hold (ledger_of w1)" and
    j1: "journal w1 = journal w @ js1"
        "foreign_keys_hold (ledger_of w) \<longrightarrow> (\<forall>l \<in> set js1. foreign_keys_hold l)"
    unfolding rolled_back_def by blast
  from assms(2) obtain js2 where
    r2: "revision_table w2 = filter (\<lambda>r. r \<notin> set t2) (revision_table w1)" and
    e2: "dependent_revision_table w2 =
           filter (\<lambda>(p, d). d \<notin> set t2) (dependent_revision_table w1)" and
    o2: "rounds w2 = rounds w1" and
    f2: "foreign_keys_hold (ledger_of w1) \<longrightarrow> foreign_keys_hold (ledger_of w2)" and
    j2: "journal w2 = journal w1 @ js2"
        "foreign_keys_hold (ledger_of w1) \<longrightarrow> (\<forall>l \<in> set js2. foreign_keys_hold l)"
    unfolding rolled_back_def by blast
  have r: "revision_table w2 = filter (\<lambda>r. r \<notin> set (t1 @ t2)) (revision_table w)"
    unfolding r2 r1 by (auto intro: filter_cong)
  have e: "dependent_revision_table w2 =
           filter (\<lambda>(p, d). d \<notin> set (t1 @ t2)) (dependent_revision_table w)"
    unfolding e2 e1 by (auto intro: filter_cong)
  have j: "journal w2 = journal w @ (js1 @ js2)"
    unfolding j2(1) j1(1) by simp
  have jf: "foreign_keys_hold (ledger_of w) \<longrightarrow> (\<forall>l \<in> set (js1 @ js2). foreign_keys_hold l)"
  proof
    assume a: "foreign_keys_hold (ledger_of w)"
    with j1(2) have b1: "\<forall>l \<in> set js1. foreign_keys_hold l" by (rule mp)
    from f1 a have "foreign_keys_hold (ledger_of w1)" by (rule mp)
    with j2(2) have b2: "\<forall>l \<in> set js2. foreign_keys_hold l" by (rule mp)
    from b1 b2 show "\<forall>l \<in> set (js1 @ js2). foreign_keys_hold l"
      by (simp add: ball_Un)
  qed
  have o: "rounds w2 = rounds w"
    unfolding o2 o1 ..
  have f: "foreign_keys_hold (ledger_of w) \<longrightarrow> foreign_keys_hold (ledger_of w2)"
    using f1 f2 by blast
  have "\<exists>js. journal w2 = journal w @ js \<and>
      (foreign_keys_hold (ledger_of w) \<longrightarrow> (\<forall>l \<in> set js. foreign_keys_hold l))"
    using j jf by (intro exI [of _ "js1 @ js2"] conjI)
  with r e o f show ?thesis
    unfolding rolled_back_def by (intro conjI)
qed

lemma foreign_keys_hold_filter:
  "foreign_keys_hold (rs, es) \<Longrightarrow> foreign_keys_hold (rs, filter P es)"
  by (auto simp: foreign_keys_hold_def)

lemma undo_revision_unfold:
  "undo_revision exec fs X w =
     (case read_file fs (current_directory fs @ ''/down/'' @ X @ ''.sql'') of
        None \<Rightarrow>
          (Some (FileNotFoundError (current_directory fs @ ''/down/'' @ X @ ''.sql'')),
           w\<lparr>stdout := stdout w @ [Undoing X]\<rparr>)
      | Some cmd \<Rightarrow>
          (case exec cmd (store w) of
             None \<Rightarrow> (Some (ScriptError cmd), w\<lparr>stdout := stdout w @ [Undoing X]\<rparr>)
           | Some s \<Rightarrow>
               (if X \<in> set (revision_table w) \<and>
                   (\<exists>(p, d) \<in> set (filter (\<lambda>(p, d). d \<noteq> X) (dependent_revision_table w)).
                      p = X \<or> d = X)
                then (Some (IntegrityError ''revision_FK''),
                      w\<lparr>stdout := stdout w @ [Undoing X],
                        journal := journal w @
                          [(revision_table w,
                            filter (\<lambda>(p, d). d \<noteq> X) (dependent_revision_table w))]\<rparr>)
                else (None,
                      w\<lparr>stdout := stdout w @ [Undoing X, Done], store := s,
                        dependent_revision_table :=
                          filter (\<lambda>(p, d). d \<noteq> X) (dependent_revision_table w),
                        revision_table := filter (\<lambda>r. r \<noteq> X) (revision_table w),
                        journal := journal w @
                          [(revision_table w,
                            filter (\<lambda>(p, d). d \<noteq> X) (dependent_revision_table w)),
                           (filter (\<lambda>r. r \<noteq> X) (revision_table w),
                            filter (\<lambda>(p, d). d \<noteq> X) (dependent_revision_table w))]\<rparr>))))"
proof (cases "read_file fs (current_directory fs @ ''/down/'' @ X @ ''.sql'')")
  case None
  then show ?thesis
    by (simp add: undo_revision_def Let_def print_def)
next
  case (Some cmd)
  show ?thesis
  proof (cases "exec cmd (store w)")
    case None
    with Some show ?thesis
      by (simp add: undo_revision_def Let_def transaction_def execute_def print_def)
  next
    case s: (Some s)
    show ?thesis
    proof (cases "X \<in> set (revision_table w) \<and>
                   (\<exists>(p, d) \<in> set (filter (\<lambda>(p, d). d \<noteq> X) (dependent_revision_table w)).
                      p = X \<or> d = X)")
      case True
      with Some s show ?thesis
        by (simp add: undo_revision_def Let_def transaction_def execute_def print_def
            delete_dependent_revision_def delete_revision_def record_ledger_def ledger_of_def)
    next
      case False
      with Some s show ?thesis
        by (simp add: undo_revision_def Let_def transaction_def execute_def print_def
            delete_dependent_revision_def delete_revision_def record_ledger_def ledger_of_def)
    qed
  qed
qed

lemma undo_revision_commit:
  assumes "undo_revision exec fs X w = (None, w')"
  shows "rolled_back [X] w w'"
    and "X \<in> set (revision_table w) \<longrightarrow> (\<forall>(p, d) \<in> set (dependent_revision_table w'). p \<noteq> X)"
    and "\<exists>cmd. read_file fs (current_directory fs @ ''/down/'' @ X @ ''.sql'') = Some cmd \<and>
               exec cmd (store w) = Some (store w')"
    and "stdout w' = stdout w @ [Undoing X, Done]"
proof -
  let ?es = "filter (\<lambda>(p, d). d \<noteq> X) (dependent_revision_table w)"
  from assms obtain cmd s where
    c: "read_file fs (current_directory fs @ ''/down/'' @ X @ ''.sql'') = Some cmd" and
    s: "exec cmd (store w) = Some s" and
    ok: "\<not> (X \<in> set (revision_table w) \<and> (\<exists>(p, d) \<in> set ?es. p = X \<or> d = X))" and
    w': "w' = w\<lparr>stdout := stdout w @ [Undoing X, Done], store := s,
                     dependent_revision_table := ?es,
                     revision_table := filter (\<lambda>r. r \<noteq> X) (revision_table w),
                     journal := journal w @ [(revision_table w, ?es),
                                             (filter (\<lambda>r. r \<noteq> X) (revision_table w), ?es)]\<rparr>"
    unfolding undo_revision_unfold
    by (auto split: option.splits if_splits)
  have fk: "foreign_keys_hold (filter (\<lambda>r. r \<noteq> X) (revision_table w), ?es)"
    if "foreign_keys_hold (ledger_of w)"
    using that ok by (fastforce simp: foreign_keys_hold_def ledger_of_def)
  show "rolled_back [X] w w'"
    unfolding rolled_back_def
    using fk by (auto simp: w' ledger_of_def intro: foreign_keys_hold_filter)
  show "X \<in> set (revision_table w) \<longrightarrow> (\<forall>(p, d) \<in> set (dependent_revision_table w'). p \<noteq> X)"
    using ok by (auto simp: w')
  show "\<exists>cmd. read_file fs (current_directory fs @ ''/down/'' @ X @ ''.sql'') = Some cmd \<and>
               exec cmd (store w) = Some (store w')"
    using c s by (simp add: w')
  show "stdout w' = stdout w @ [Undoing X, Done]"
    by (simp add: w')
qed

lemma undo_revision_abort:
  assumes "undo_revision exec fs X w = (Some e, w')"
  shows "rolled_back [] w w'" and "store w' = store w" and "stdout w' = stdout w @ [Undoing X]"
proof -
  let ?es = "filter (\<lambda>(p, d). d \<noteq> X) (dependent_revision_table w)"
  from assms have "w' = w\<lparr>stdout := stdout w @ [Undoing X]\<rparr> \<or>
      w' = w\<lparr>stdout := stdout w @ [Undoing X],
              journal := journal w @ [(revision_table w, ?es)]\<rparr>"
    unfolding undo_revision_unfold
    by (auto split: option.splits if_splits)
  then show "rolled_back [] w w'" and "store w' = store w" and "stdout w' = stdout w @ [Undoing X]"
    by (auto simp: rolled_back_def ledger_of_def intro: foreign_keys_hold_filter)
qed

lemma rolled_back_revision:
  "rolled_back undone w w' \<Longrightarrow>
   revision_table w' = filter (\<lambda>r. r \<notin> set undone) (revision_table w)"
  unfolding rolled_back_def by (rule conjunct1)

lemma rolled_back_dependent:
  "rolled_back undone w w' \<Longrightarrow>
   dependent_revision_table w' = filter (\<lambda>(p, d). d \<notin> set undone) (dependent_revision_table w)"
  unfolding rolled_back_def by (elim conjE)

lemma rolled_back_edges_subset:
  "rolled_back undone w w' \<Longrightarrow>
   set (dependent_revision_table w') \<subseteq> set (dependent_revision_table w)"
  by (simp add: rolled_back_dependent)

lemma find_dependent_revisions_set:
  "set (find_dependent_revisions X w) = set (dependent_revision_table w) `` {X}"
  by (auto simp: find_dependent_revisions_def)

lemma for_each_fuel_rolled_back:
  assumes step: "\<And>d w out w'. f d w = Some (out, w') \<Longrightarrow>
            \<exists>undone. rolled_back undone w w' \<and>
              set undone \<subseteq> (set (dependent_revision_table w))\<^sup>* `` {d} \<and>
              (out = None \<longrightarrow> d \<in> set undone)"
    and run: "for_each_fuel f ds w = Some (out, w')"
  shows "\<exists>undone. rolled_back undone w w' \<and>
           set undone \<subseteq> (set (dependent_revision_table w))\<^sup>* `` set ds \<and>
           (out = None \<longrightarrow> set ds \<subseteq> set undone)"
  using run
proof (induction ds arbitrary: w)
  case Nil
  then have "out = None" "w' = w" by simp_all
  then show ?case
    using rolled_back_refl [of w] by (intro exI [of _ "[]"]) simp
next
  case (Cons d ds)
  from Cons.prems obtain o1 w1 where f: "f d w = Some (o1, w1)"
    by (cases "f d w") auto
  from step [OF f] obtain t1 where
    t1: "rolled_back t1 w w1" "set t1 \<subseteq> (set (dependent_revision_table w))\<^sup>* `` {d}"
        "o1 = None \<longrightarrow> d \<in> set t1"
    by blast
  show ?case
  proof (cases o1)
    case (Some e)
    with Cons.prems f have "out = Some e" "w' = w1" by simp_all
    with t1 show ?thesis
      by (intro exI [of _ t1]) auto
  next
    case None
    with Cons.prems f have "for_each_fuel f ds w1 = Some (out, w')" by simp
    from Cons.IH [OF this] obtain t2 where
      t2: "rolled_back t2 w1 w'" "set t2 \<subseteq> (set (dependent_revision_table w1))\<^sup>* `` set ds"
          "out = None \<longrightarrow> set ds \<subseteq> set t2"
      by blast
    have "(set (dependent_revision_table w1))\<^sup>* \<subseteq> (set (dependent_revision_table w))\<^sup>*"
      by (rule rtrancl_mono) (rule rolled_back_edges_subset [OF t1(1)])
    with t2(2) have r2: "set t2 \<subseteq> (set (dependent_revision_table w))\<^sup>* `` set ds"
      by blast
    have "rolled_back (t1 @ t2) w w'"
      using t1(1) t2(1) by (rule rolled_back_trans)
    moreover have "set (t1 @ t2) \<subseteq> (set (dependent_revision_table w))\<^sup>* `` set (d # ds)"
      using t1(2) r2 by auto
    moreover have "out = None \<longrightarrow> set (d # ds) \<subseteq> set (t1 @ t2)"
      using t1(3) t2(3) None by auto
    ultimately show ?thesis by blast
  qed
qed

lemma remove_migration_rolled_back:
  "remove_migration fuel exec fs X w = Some (out, w') \<Longrightarrow>
   \<exists>undone. rolled_back undone w w' \<and>
     set undone \<subseteq> (set (dependent_revision_table w))\<^sup>* `` {X} \<and>
     (out = None \<longrightarrow> X \<in> set undone \<and>
        (\<forall>(p, d) \<in> set (dependent_revision_table w). p = X \<longrightarrow> d \<in> set undone))"
proof (induction fuel arbitrary: X w out w')
  case 0
  then show ?case by simp
next
  case (Suc fuel)
  let ?E = "set (dependent_revision_table w)"
  from Suc.prems obtain o1 w1 where
    loop: "for_each_fuel (remove_migration fuel exec fs) (find_dependent_revisions X w) w =
             Some (o1, w1)"
    by (cases "for_each_fuel (remove_migration fuel exec fs) (find_dependent_revisions X w) w")
       (auto simp: Let_def)
  have "\<exists>undone. rolled_back undone w w1 \<and>
           set undone \<subseteq> ?E\<^sup>* `` set (find_dependent_revisions X w) \<and>
           (o1 = None \<longrightarrow> set (find_dependent_revisions X w) \<subseteq> set undone)"
  proof (rule for_each_fuel_rolled_back [OF _ loop])
    fix d w2 out2 w2'
    assume "remove_migration fuel exec fs d w2 = Some (out2, w2')"
    from Suc.IH [OF this]
    show "\<exists>undone. rolled_back undone w2 w2' \<and>
              set undone \<subseteq> (set (dependent_revision_table w2))\<^sup>* `` {d} \<and>
              (out2 = None \<longrightarrow> d \<in> set undone)"
      by blast
  qed
  then obtain t0 where
    t0: "rolled_back t0 w w1" "set t0 \<subseteq> ?E\<^sup>* `` (?E `` {X})" "o1 = None \<longrightarrow> ?E `` {X} \<subseteq> set t0"
    unfolding find_dependent_revisions_set by blast
  have reach: "set t0 \<subseteq> ?E\<^sup>* `` {X}"
    using t0(2) by (auto intro: converse_rtrancl_into_rtrancl)
  show ?case
  proof (cases o1)
    case (Some e)
    with Suc.prems loop have "out = Some e" "w' = w1" by (simp_all add: Let_def)
    with t0(1) reach show ?thesis
      by (intro exI [of _ t0]) simp
  next
    case None
    with Suc.prems loop have u: "undo_revision exec fs X w1 = (out, w')"
      by (simp add: Let_def)
    show ?thesis
    proof (cases out)
      case (Some e)
      with u have "rolled_back [] w1 w'" by (auto dest: undo_revision_abort(1))
      with t0(1) have "rolled_back (t0 @ []) w w'" by (rule rolled_back_trans)
      with Some reach show ?thesis
        by (intro exI [of _ t0]) simp
    next
      case out: None
      with u have "rolled_back [X] w1 w'" by (auto dest: undo_revision_commit(1))
      with t0(1) have "rolled_back (t0 @ [X]) w w'" by (rule rolled_back_trans)
      moreover have "set (t0 @ [X]) \<subseteq> ?E\<^sup>* `` {X}"
        using reach by auto
      moreover have "\<forall>(p, d) \<in> ?E. p = X \<longrightarrow> d \<in> set (t0 @ [X])"
        using t0(3) None by auto
      ultimately show ?thesis
        by (intro exI [of _ "t0 @ [X]"]) simp
    qed
  qed
qed

section \<open>Claim C5: what a rollback leaves behind\<close>

text \<open>
  C5. When \<^verbatim>\<open>remove_migration\<close> returns normally, the tables hold no row for the target
  and no row of \<open>dependent_revision\<close> names it as parent or as dependent. Whatever the
  outcome, if the foreign keys hold before the call, they hold on the tables as every
  statement of the rollback leaves them (the entries the call adds to the journal) and on
  the tables at the end: no row of \<open>dependent_revision\<close> ever names a revision that is
  gone.
\<close>

theorem rollback_leaves_no_trace:
  assumes "remove_migration fuel exec fs X w = Some (out, w')"
  shows "(out = None \<longrightarrow>
            X \<notin> set (revision_table w') \<and>
            (\<forall>(p, d) \<in> set (dependent_revision_table w'). p \<noteq> X \<and> d \<noteq> X)) \<and>
         (foreign_keys_hold (ledger_of w) \<longrightarrow>
            (\<forall>l \<in> set (drop (length (journal w)) (journal w')). foreign_keys_hold l) \<and>
            foreign_keys_hold (ledger_of w'))"
proof -
  from remove_migration_rolled_back [OF assms] obtain undone where
    rb: "rolled_back undone w w'" and
    gone: "out = None \<longrightarrow> X \<in> set undone \<and>
             (\<forall>(p, d) \<in> set (dependent_revision_table w). p = X \<longrightarrow> d \<in> set undone)"
    by blast
  have r: "revision_table w' = filter (\<lambda>r. r \<notin> set undone) (revision_table w)"
    using rb by (rule rolled_back_revision)
  have e: "dependent_revision_table w' =
             filter (\<lambda>(p, d). d \<notin> set undone) (dependent_revision_table w)"
    using rb by (rule rolled_back_dependent)
  have first: "out = None \<longrightarrow>
            X \<notin> set (revision_table w') \<and>
            (\<forall>(p, d) \<in> set (dependent_revision_table w'). p \<noteq> X \<and> d \<noteq> X)"
    using gone unfolding r e by auto
  from rb obtain js where
    j: "journal w' = journal w @ js" and
    jf: "foreign_keys_hold (ledger_of w) \<longrightarrow> (\<forall>l \<in> set js. foreign_keys_hold l)" and
    f: "foreign_keys_hold (ledger_of w) \<longrightarrow> foreign_keys_hold (ledger_of w')"
    unfolding rolled_back_def by blast
  have "drop (length (journal w)) (journal w') = js"
    unfolding j by simp
  with jf f first show ?thesis by simp
qed

theorem rollback_leaves_no_trace_witness:
  "\<exists>w'. remove_migration 3 log_exec fs_diamond ''A'' diamond_applied = Some (None, w') \<and>
         ''A'' \<notin> set (revision_table w') \<and>
         \<not> (\<exists>(p, d) \<in> set (dependent_revision_table w'). p = ''A'' \<or> d = ''A'') \<and>
         list_all foreign_keys_hold (drop (length (journal diamond_applied)) (journal w'))"
proof -
  have "remove_migration 3 log_exec fs_diamond ''A'' diamond_applied \<noteq> None"
    and "fst (the (remove_migration 3 log_exec fs_diamond ''A'' diamond_applied)) = None"
    by code_simp+
  then obtain w' where
    run: "remove_migration 3 log_exec fs_diamond ''A'' diamond_applied = Some (None, w')"
    by (cases "remove_migration 3 log_exec fs_diamond ''A'' diamond_applied") auto
  have fk: "foreign_keys_hold (ledger_of diamond_applied)"
    by code_simp
  from rollback_leaves_no_trace [OF run] fk
  have "''A'' \<notin> set (revision_table w')"
    and "\<forall>(p, d) \<in> set (dependent_revision_table w'). p \<noteq> ''A'' \<and> d \<noteq> ''A''"
    and "\<forall>l \<in> set (drop (length (journal diamond_applied)) (journal w')). foreign_keys_hold l"
    by blast+
  with run show ?thesis
    by (intro exI [of _ w']) (auto simp: list_all_iff)
qed

section \<open>Claim C6: rolling back a revision that is not applied\<close>

text \<open>
  C6, as the code has it. \<^verbatim>\<open>remove_migration\<close> never reads the \<open>revision\<close> table. For a
  target that is not an applied revision (on tables whose foreign keys hold) no dependent
  is found, and then: without a file \<^verbatim>\<open>down/<target>.sql\<close> the call raises
  \<^verbatim>\<open>FileNotFoundError\<close>; with one, its reverse script is executed, and if the script
  succeeds the call returns normally. In every case the two tables are left as they
  were.
\<close>

theorem rollback_of_unapplied_target:
  assumes "X \<notin> set (revision_table w)" and "foreign_keys_hold (ledger_of w)"
  shows "remove_migration (Suc fuel) exec fs X w =
           Some (case read_file fs (current_directory fs @ ''/down/'' @ X @ ''.sql'') of
                   None \<Rightarrow>
                     (Some (FileNotFoundError (current_directory fs @ ''/down/'' @ X @ ''.sql'')),
                      w\<lparr>stdout := stdout w @ [Undoing X]\<rparr>)
                 | Some migration_command \<Rightarrow>
                     (case exec migration_command (store w) of
                        None \<Rightarrow>
                          (Some (ScriptError migration_command),
                           w\<lparr>stdout := stdout w @ [Undoing X]\<rparr>)
                      | Some s \<Rightarrow>
                          (None,
                           w\<lparr>store := s, stdout := stdout w @ [Undoing X, Done],
                             journal := journal w @ [ledger_of w, ledger_of w]\<rparr>)))"
proof -
  from assms have no_edge: "\<And>p d. (p, d) \<in> set (dependent_revision_table w) \<Longrightarrow> p \<noteq> X \<and> d \<noteq> X"
    by (auto simp: foreign_keys_hold_def ledger_of_def)
  then have deps: "find_dependent_revisions X w = []"
    by (auto simp: find_dependent_revisions_def filter_empty_conv)
  have es: "filter (\<lambda>(p, d). d \<noteq> X) (dependent_revision_table w) = dependent_revision_table w"
    using no_edge by (auto simp: filter_id_conv)
  have rs: "filter (\<lambda>r. r \<noteq> X) (revision_table w) = revision_table w"
    using assms(1) by (auto simp: filter_id_conv)
  have "remove_migration (Suc fuel) exec fs X w = Some (undo_revision exec fs X w)"
    by (simp add: deps)
  then show ?thesis
    unfolding undo_revision_unfold es rs
    using assms(1) by (simp add: ledger_of_def split: option.split)
qed

theorem rollback_of_unapplied_target_witness:
  "remove_migration (Suc 0) log_exec fs_down_only ''X'' (world_with [''A''] []) =
     Some (None, (world_with [''A''] [])
                   \<lparr>store := [''drop table x;''], stdout := [Undoing ''X'', Done],
                    journal := [([''A''], []), ([''A''], [])]\<rparr>) \<and>
   remove_migration (Suc 0) log_exec fs_down_only ''Y'' (world_with [''A''] []) =
     Some (Some (FileNotFoundError ''/m/down/Y.sql''),
           (world_with [''A''] [])\<lparr>stdout := [Undoing ''Y'']\<rparr>)"
proof -
  have x: "''X'' \<notin> set (revision_table (world_with [''A''] []))"
    and y: "''Y'' \<notin> set (revision_table (world_with [''A''] []))"
    and fk: "foreign_keys_hold (ledger_of (world_with [''A''] []))"
    by code_simp+
  have ex: "(case read_file fs_down_only (current_directory fs_down_only @ ''/down/'' @ ''X'' @ ''.sql'') of
               None \<Rightarrow>
                 (Some (FileNotFoundError (current_directory fs_down_only @ ''/down/'' @ ''X'' @ ''.sql'')),
                  (world_with [''A''] [])\<lparr>stdout := stdout (world_with [''A''] []) @ [Undoing ''X'']\<rparr>)
             | Some migration_command \<Rightarrow>
                 (case log_exec migration_command (store (world_with [''A''] [])) of
                    None \<Rightarrow>
                      (Some (ScriptError migration_command),
                       (world_with [''A''] [])\<lparr>stdout := stdout (world_with [''A''] []) @ [Undoing ''X'']\<rparr>)
                  | Some s \<Rightarrow>
                      (None,
                       (world_with [''A''] [])
                         \<lparr>store := s, stdout := stdout (world_with [''A''] []) @ [Undoing ''X'', Done],
                          journal := journal (world_with [''A''] []) @
                            [ledger_of (world_with [''A''] []), ledger_of (world_with [''A''] [])]\<rparr>))) =
            (None, (world_with [''A''] [])
                   \<lparr>store := [''drop table x;''], stdout := [Undoing ''X'', Done],
                    journal := [([''A''], []), ([''A''], [])]\<rparr>)"
    by code_simp
  have ey: "(case read_file fs_down_only (current_directory fs_down_only @ ''/down/'' @ ''Y'' @ ''.sql'') of
               None \<Rightarrow>
                 (Some (FileNotFoundError (current_directory fs_down_only @ ''/down/'' @ ''Y'' @ ''.sql'')),
                  (world_with [''A''] [])\<lparr>stdout := stdout (world_with [''A''] []) @ [Undoing ''Y'']\<rparr>)
             | Some migration_command \<Rightarrow>
                 (case log_exec migration_command (store (world_with [''A''] [])) of
                    None \<Rightarrow>
                      (Some (ScriptError migration_command),
                       (world_with [''A''] [])\<lparr>stdout := stdout (world_with [''A''] []) @ [Undoing ''Y'']\<rparr>)
                  | Some s \<Rightarrow>
                      (None,
                       (world_with [''A''] [])
                         \<lparr>store := s, stdout := stdout (world_with [''A''] []) @ [Undoing ''Y'', Done],
                          journal := journal (world_with [''A''] []) @
                            [ledger_of (world_with [''A''] []), ledger_of (world_with [''A''] [])]\<rparr>))) =
            (Some (FileNotFoundError ''/m/down/Y.sql''),
             (world_with [''A''] [])\<lparr>stdout := [Undoing ''Y'']\<rparr>)"
    by code_simp
  show ?thesis
    using rollback_of_unapplied_target [OF x fk, of 0 log_exec fs_down_only]
      rollback_of_unapplied_target [OF y fk, of 0 log_exec fs_down_only]
    unfolding ex ey by (rule conjI)
qed

text \<open>
  C6 as stated fails: \<^verbatim>\<open>X\<close> was never applied, its file \<^verbatim>\<open>down/X.sql\<close> exists, and the
  rollback executes it on the store and reports \<^verbatim>\<open>DONE\<close>.
\<close>

theorem rollback_of_unapplied_counterexample:
  "''X'' \<notin> set (revision_table (world_with [] [])) \<and>
   remove_migration 1 log_exec fs_down_only ''X'' (world_with [] []) =
     Some (None, \<lparr>revision_table = [], dependent_revision_table = [],
                  store = [''drop table x;''], stdout = [Undoing ''X'', Done],
                  journal = [([], []), ([], [])], rounds = []\<rparr>)"
  by code_simp

section \<open>Claim C9: the recursion of \<^verbatim>\<open>remove_migration\<close>\<close>

lemma for_each_fuel_mono:
  assumes "\<And>x w r. f x w = Some r \<Longrightarrow> g x w = Some r"
    and "for_each_fuel f xs w = Some r"
  shows "for_each_fuel g xs w = Some r"
  using assms(2)
proof (induction xs arbitrary: w)
  case Nil
  then show ?case by simp
next
  case (Cons x xs)
  from Cons.prems obtain r1 where f: "f x w = Some r1"
    by (cases "f x w") auto
  then have g: "g x w = Some r1" by (rule assms(1))
  obtain out w1 where r1: "r1 = (out, w1)" by (cases r1)
  show ?case
  proof (cases out)
    case None
    with Cons.prems f r1 have "for_each_fuel f xs w1 = Some r" by simp
    then have "for_each_fuel g xs w1 = Some r" by (rule Cons.IH)
    with g r1 None show ?thesis by simp
  next
    case (Some e)
    with Cons.prems f g r1 show ?thesis by auto
  qed
qed

lemma remove_migration_Suc_fuel:
  "remove_migration fuel exec fs X w = Some r \<Longrightarrow> remove_migration (Suc fuel) exec fs X w = Some r"
proof (induction fuel arbitrary: X w r)
  case 0
  then show ?case by simp
next
  case (Suc fuel)
  from Suc.prems obtain r1 where
    loop: "for_each_fuel (remove_migration fuel exec fs) (find_dependent_revisions X w) w = Some r1"
    by (cases "for_each_fuel (remove_migration fuel exec fs) (find_dependent_revisions X w) w")
       (auto simp: Let_def)
  have "for_each_fuel (remove_migration (Suc fuel) exec fs) (find_dependent_revisions X w) w = Some r1"
    by (rule for_each_fuel_mono [OF _ loop]) (rule Suc.IH)
  with Suc.prems loop show ?case
    by (simp add: Let_def)
qed

lemma remove_migration_more_fuel:
  "remove_migration fuel exec fs X w = Some r \<Longrightarrow> fuel \<le> fuel' \<Longrightarrow>
   remove_migration fuel' exec fs X w = Some r"
proof (induction fuel')
  case 0
  then show ?case by simp
next
  case (Suc fuel')
  show ?case
  proof (cases "fuel = Suc fuel'")
    case True
    with Suc.prems show ?thesis by simp
  next
    case False
    with Suc.prems have "fuel \<le> fuel'" by simp
    with Suc.prems(1) have "remove_migration fuel' exec fs X w = Some r" by (rule Suc.IH)
    then show ?thesis by (rule remove_migration_Suc_fuel)
  qed
qed

lemma remove_migration_edges_subset:
  "remove_migration fuel exec fs X w = Some (out, w') \<Longrightarrow>
   set (dependent_revision_table w') \<subseteq> set (dependent_revision_table w)"
  by (blast dest: remove_migration_rolled_back rolled_back_edges_subset)

lemma for_each_fuel_returns:
  assumes "\<And>d w. d \<in> set ds \<Longrightarrow> set (dependent_revision_table w) \<subseteq> E \<Longrightarrow> f d w \<noteq> None"
    and "\<And>d w out w'. f d w = Some (out, w') \<Longrightarrow>
           set (dependent_revision_table w') \<subseteq> set (dependent_revision_table w)"
    and "set (dependent_revision_table w) \<subseteq> E"
  shows "for_each_fuel f ds w \<noteq> None"
  using assms(1,3)
proof (induction ds arbitrary: w)
  case Nil
  show ?case by simp
next
  case (Cons d ds)
  from Cons.prems(1) [of d w] Cons.prems(2) obtain out w1 where f: "f d w = Some (out, w1)"
    by (cases "f d w") auto
  show ?case
  proof (cases out)
    case None
    have "set (dependent_revision_table w1) \<subseteq> E"
      using assms(2) [OF f] Cons.prems(2) by blast
    then have "for_each_fuel f ds w1 \<noteq> None"
      using Cons.prems(1) by (intro Cons.IH) auto
    with f None show ?thesis by simp
  next
    case (Some e)
    with f show ?thesis by simp
  qed
qed

lemma remove_migration_returns:
  assumes "finite E" and "acyclic E"
  shows "\<exists>fuel. \<forall>w. set (dependent_revision_table w) \<subseteq> E \<longrightarrow>
           remove_migration fuel exec fs X (w :: 's world) \<noteq> None"
proof -
  have "wf (E\<inverse>)"
    using assms by (rule finite_acyclic_wf_converse)
  then show ?thesis
  proof (induction X rule: wf_induct_rule)
    case (less X)
    let ?Q = "\<lambda>n d. \<forall>w :: 's world. set (dependent_revision_table w) \<subseteq> E \<longrightarrow>
                      remove_migration n exec fs d w \<noteq> None"
    have "finite (E `` {X})"
      using assms(1) by (rule finite_Image)
    moreover have "\<forall>d \<in> E `` {X}. \<exists>n. ?Q n d"
      using less by auto
    ultimately obtain n_of where n_of: "\<forall>d \<in> E `` {X}. ?Q (n_of d) d"
      using bchoice [of "E `` {X}" "\<lambda>d n. ?Q n d"] by blast
    define N where "N = Max (insert 0 (n_of ` (E `` {X})))"
    have bound: "n_of d \<le> N" if "d \<in> E `` {X}" for d
      unfolding N_def using that \<open>finite (E `` {X})\<close> by (intro Max_ge) auto
    have all: "?Q N d" if d: "d \<in> E `` {X}" for d
    proof (intro allI impI)
      fix w :: "'s world"
      assume "set (dependent_revision_table w) \<subseteq> E"
      with n_of d obtain r where "remove_migration (n_of d) exec fs d w = Some r"
        by blast
      then have "remove_migration N exec fs d w = Some r"
        using bound [OF d] by (rule remove_migration_more_fuel)
      then show "remove_migration N exec fs d w \<noteq> None" by simp
    qed
    have "?Q (Suc N) X"
    proof (intro allI impI)
      fix w :: "'s world"
      assume sub: "set (dependent_revision_table w) \<subseteq> E"
      have "for_each_fuel (remove_migration N exec fs) (find_dependent_revisions X w) w \<noteq> None"
      proof (rule for_each_fuel_returns [where E = E])
        fix d and w1 :: "'s world"
        assume "d \<in> set (find_dependent_revisions X w)"
          and s1: "set (dependent_revision_table w1) \<subseteq> E"
        then have "d \<in> E `` {X}"
          using sub by (auto simp: find_dependent_revisions_set)
        from all [OF this] s1 show "remove_migration N exec fs d w1 \<noteq> None" by blast
      next
        fix d out and w1 w1' :: "'s world"
        assume "remove_migration N exec fs d w1 = Some (out, w1')"
        then show "set (dependent_revision_table w1') \<subseteq> set (dependent_revision_table w1)"
          by (rule remove_migration_edges_subset)
      next
        show "set (dependent_revision_table w) \<subseteq> E" by (rule sub)
      qed
      then show "remove_migration (Suc N) exec fs X w \<noteq> None"
        by (auto simp: Let_def split: option.splits)
    qed
    then show ?case by blast
  qed
qed

lemma remove_migration_self_dependent:
  "find_dependent_revisions X w = X # others \<Longrightarrow> remove_migration fuel exec fs X w = None"
  by (induction fuel) (simp_all add: Let_def)

text \<open>
  C9. On tables whose rows of \<open>dependent_revision\<close> form an acyclic relation the
  recursion bottoms out: some number of nested calls is enough, and then the call returns
  the same result however many fuel' are allowed. The precondition is needed: when the
  query for the dependents of the target returns the target itself first, no number of
  nested calls is enough.
\<close>

theorem rollback_terminates:
  "(acyclic (set (dependent_revision_table w)) \<longrightarrow>
      (\<exists>fuel r. \<forall>fuel' \<ge> fuel. remove_migration fuel' exec fs X w = Some r)) \<and>
   (find_dependent_revisions X w = X # others \<longrightarrow>
      (\<forall>fuel. remove_migration fuel exec fs X w = None))"
proof (intro conjI impI)
  assume "acyclic (set (dependent_revision_table w))"
  with remove_migration_returns [of "set (dependent_revision_table w)" exec fs X]
  obtain fuel r where "remove_migration fuel exec fs X w = Some r"
    by fastforce
  then have "\<forall>fuel' \<ge> fuel. remove_migration fuel' exec fs X w = Some r"
    by (blast intro: remove_migration_more_fuel)
  then show "\<exists>fuel r. \<forall>fuel' \<ge> fuel. remove_migration fuel' exec fs X w = Some r"
    by blast
next
  assume "find_dependent_revisions X w = X # others"
  then show "\<forall>fuel. remove_migration fuel exec fs X w = None"
    by (blast intro: remove_migration_self_dependent)
qed

theorem rollback_terminates_witness:
  "(\<exists>fuel r. \<forall>fuel' \<ge> fuel. remove_migration fuel' log_exec fs_diamond ''A'' diamond_applied = Some r) \<and>
   (\<forall>fuel. remove_migration fuel log_exec fs_diamond ''A'' (world_with [''A''] [(''A'', ''A'')]) = None)"
proof -
  have a: "acyclic (set (dependent_revision_table diamond_applied))"
    by code_simp
  have s: "find_dependent_revisions ''A'' (world_with [''A''] [(''A'', ''A'')]) = ''A'' # []"
    by code_simp
  from rollback_terminates [where w = diamond_applied and exec = log_exec and fs = fs_diamond
      and X = "''A''"] a
  have one: "\<exists>fuel r. \<forall>fuel' \<ge> fuel.
      remove_migration fuel' log_exec fs_diamond ''A'' diamond_applied = Some r"
    by blast
  from rollback_terminates [where w = "world_with [''A''] [(''A'', ''A'')]" and X = "''A''"
      and others = "[]" and exec = log_exec and fs = fs_diamond] s
  have two: "\<forall>fuel. remove_migration fuel log_exec fs_diamond ''A''
      (world_with [''A''] [(''A'', ''A'')]) = None"
    by blast
  from one two show ?thesis by (rule conjI)
qed

section \<open>What the apply loop commits\<close>

lemma run_scripts_append:
  "run_scripts exec (xs @ ys) s =
     (case run_scripts exec xs s of None \<Rightarrow> None | Some s' \<Rightarrow> run_scripts exec ys s')"
proof (induction xs arbitrary: s)
  case Nil
  show ?case by simp
next
  case (Cons x xs)
  show ?case
  proof (cases x)
    case None
    then show ?thesis by simp
  next
    case (Some c)
    with Cons.IH show ?thesis by (cases "exec c s") simp_all
  qed
qed

lemma commits_nil:
  "revision_table w' = revision_table w \<Longrightarrow>
   dependent_revision_table w' = dependent_revision_table w \<Longrightarrow> store w' = store w \<Longrightarrow>
   commits exec fs rtf rtp [] w w'"
  by (simp add: commits_def)

lemma commits_append:
  assumes "commits exec fs rtf rtp cs1 w w1" and "commits exec fs rtf rtp cs2 w1 w2"
  shows "commits exec fs rtf rtp (cs1 @ cs2) w w2"
proof -
  from assms(1) have
    r1: "revision_table w1 = revision_table w @ cs1" and
    d1: "distinct cs1" "set cs1 \<inter> set (revision_table w) = {}" and
    e1: "dependent_revision_table w1 =
           dependent_revision_table w @
           concat (map (\<lambda>revision. map (\<lambda>parent. (parent, revision)) (declared_of rtp revision)) cs1)" and
    l1: "list_all (\<lambda>revision. distinct (declared_of rtp revision) \<and> map_of rtp revision \<noteq> None) cs1" and
    s1: "run_scripts exec (map (script_of fs rtf) cs1) (store w) = Some (store w1)"
    unfolding commits_def by blast+
  from assms(2) have
    r2: "revision_table w2 = revision_table w1 @ cs2" and
    d2: "distinct cs2" "set cs2 \<inter> set (revision_table w1) = {}" and
    e2: "dependent_revision_table w2 =
           dependent_revision_table w1 @
           concat (map (\<lambda>revision. map (\<lambda>parent. (parent, revision)) (declared_of rtp revision)) cs2)" and
    l2: "list_all (\<lambda>revision. distinct (declared_of rtp revision) \<and> map_of rtp revision \<noteq> None) cs2" and
    s2: "run_scripts exec (map (script_of fs rtf) cs2) (store w1) = Some (store w2)"
    unfolding commits_def by blast+
  have "revision_table w2 = revision_table w @ (cs1 @ cs2)"
    unfolding r2 r1 by simp
  moreover have "distinct (cs1 @ cs2)"
    using d1 d2 unfolding r1 by auto
  moreover have "set (cs1 @ cs2) \<inter> set (revision_table w) = {}"
    using d1 d2 unfolding r1 by auto
  moreover have "dependent_revision_table w2 =
           dependent_revision_table w @
           concat (map (\<lambda>revision. map (\<lambda>parent. (parent, revision)) (declared_of rtp revision))
                     (cs1 @ cs2))"
    unfolding e2 e1 by simp
  moreover have "list_all (\<lambda>revision. distinct (declared_of rtp revision) \<and> map_of rtp revision \<noteq> None)
                   (cs1 @ cs2)"
    using l1 l2 by simp
  moreover have "run_scripts exec (map (script_of fs rtf) (cs1 @ cs2)) (store w) = Some (store w2)"
    using s1 s2 by (simp add: run_scripts_append)
  ultimately show ?thesis
    unfolding commits_def by blast
qed

lemma map_of_retire:
  "map_of (retire x rtp) r =
     (if r = x then None
      else map_option (\<lambda>(declared, outstanding). (declared, remove1 x outstanding)) (map_of rtp r))"
  by (induction rtp) (auto simp: retire_def dict_del_def)

lemma declared_of_retire:
  "map_of (retire x rtp) r \<noteq> None \<Longrightarrow>
   map_of rtp r \<noteq> None \<and> declared_of (retire x rtp) r = declared_of rtp r \<and> r \<noteq> x"
  by (auto simp: map_of_retire declared_of_def split: if_splits option.splits)

lemma commits_retire:
  assumes "commits exec fs rtf (retire x rtp) cs w w'"
  shows "commits exec fs rtf rtp cs w w'" and "x \<notin> set cs"
proof -
  from assms have
    l: "list_all (\<lambda>revision. distinct (declared_of (retire x rtp) revision) \<and>
                              map_of (retire x rtp) revision \<noteq> None) cs"
    unfolding commits_def by blast
  have same: "map_of rtp r \<noteq> None \<and> declared_of (retire x rtp) r = declared_of rtp r \<and> r \<noteq> x"
    if "r \<in> set cs" for r
  proof (rule declared_of_retire)
    from l that show "map_of (retire x rtp) r \<noteq> None"
      unfolding list_all_iff by blast
  qed
  then show "x \<notin> set cs" by blast
  have m: "map (\<lambda>revision. map (\<lambda>parent. (parent, revision)) (declared_of (retire x rtp) revision)) cs =
           map (\<lambda>revision. map (\<lambda>parent. (parent, revision)) (declared_of rtp revision)) cs"
    using same by (intro map_cong) auto
  have l': "list_all (\<lambda>revision. distinct (declared_of rtp revision) \<and> map_of rtp revision \<noteq> None) cs"
    using l same by (auto simp: list_all_iff)
  from assms show "commits exec fs rtf rtp cs w w'"
    unfolding commits_def m using l' by blast
qed

lemma apply_revision_commits:
  assumes "apply_revision exec fs rtf x (rtp, w) = (None, rtp', w')"
  shows "commits exec fs rtf rtp [x] w w'" and "rtp' = retire x rtp"
    and "rounds w' = rounds w" and "stdout w' = stdout w @ [Applying x, Done]"
proof -
  from apply_revision_commit [OF assms] obtain path cmd s declared outstanding where
    f: "map_of rtf x = Some path" "read_file fs path = Some cmd" "exec cmd (store w) = Some s"
       "map_of rtp x = Some (declared, outstanding)" "x \<notin> set (revision_table w)"
       "distinct declared" and
    r: "revision_table w' = revision_table w @ [x]"
       "dependent_revision_table w' = dependent_revision_table w @ map (\<lambda>p. (p, x)) declared"
       "store w' = s" "stdout w' = stdout w @ [Applying x, Done]" "rounds w' = rounds w"
       "rtp' = map (\<lambda>(r, declared, outstanding). (r, declared, remove1 x outstanding))
                 (dict_del x rtp)"
    by blast
  show "commits exec fs rtf rtp [x] w w'"
    unfolding commits_def using f r by (simp add: declared_of_def script_of_def)
  show "rtp' = retire x rtp" using r by (simp add: retire_def)
  show "rounds w' = rounds w" by (rule r)
  show "stdout w' = stdout w @ [Applying x, Done]" by (rule r)
qed

text \<open>One pass of the \<^verbatim>\<open>for\<close> loop over a frontier.\<close>

lemma pass_commits:
  assumes "for_each (apply_revision exec fs rtf) frontier (rtp, w) = (out, rtp', w')"
  shows "\<exists>committed rest.
           frontier = committed @ rest \<and> (out = None \<longrightarrow> rest = []) \<and> (out \<noteq> None \<longrightarrow> rest \<noteq> []) \<and>
           commits exec fs rtf rtp committed w w' \<and> rtp' = fold retire committed rtp \<and>
           rounds w' = rounds w \<and>
           (\<forall>m \<in> set (stdout w'). m \<in> set (stdout w) \<or> m = Done \<or> (\<exists>r \<in> set frontier. m = Applying r))"
  using assms
proof (induction frontier arbitrary: rtp w)
  case Nil
  then have "out = None" "rtp' = rtp" "w' = w" by simp_all
  then show ?case
    by (intro exI [of _ "[]"]) (simp add: commits_nil)
next
  case (Cons x frontier)
  obtain o1 rtp1 w1 where s: "apply_revision exec fs rtf x (rtp, w) = (o1, rtp1, w1)"
    by (metis prod_cases3)
  show ?case
  proof (cases o1)
    case (Some e)
    with s Cons.prems have res: "out = Some e" "rtp' = rtp1" "w' = w1" by simp_all
    from apply_revision_abort [of exec fs rtf x rtp w e rtp1 w1 0] s Some
    have ab: "rtp1 = rtp" "revision_table w1 = revision_table w"
      "dependent_revision_table w1 = dependent_revision_table w" "store w1 = store w"
      "rounds w1 = rounds w" "stdout w1 = stdout w \<or> stdout w1 = stdout w @ [Applying x]"
      by simp_all
    have c: "commits exec fs rtf rtp [] w w1"
      using ab by (intro commits_nil)
    have m: "\<forall>m \<in> set (stdout w1). m \<in> set (stdout w) \<or> m = Done \<or>
               (\<exists>r \<in> set (x # frontier). m = Applying r)"
      using ab(6) by auto
    show ?thesis
      unfolding res
      using c ab(1,5) m by (intro exI [of _ "[]"] exI [of _ "x # frontier"]) simp
  next
    case None
    with s Cons.prems have rest: "for_each (apply_revision exec fs rtf) frontier (rtp1, w1) = (out, rtp', w')"
      by simp
    from s None have s': "apply_revision exec fs rtf x (rtp, w) = (None, rtp1, w1)" by simp
    note first = apply_revision_commits [OF s']
    from Cons.IH [OF rest] obtain committed rest' where
      ih: "frontier = committed @ rest'" "out = None \<longrightarrow> rest' = []" "out \<noteq> None \<longrightarrow> rest' \<noteq> []"
          "commits exec fs rtf rtp1 committed w1 w'" "rtp' = fold retire committed rtp1"
          "rounds w' = rounds w1"
          "\<forall>m \<in> set (stdout w'). m \<in> set (stdout w1) \<or> m = Done \<or> (\<exists>r \<in> set frontier. m = Applying r)"
      by blast
    have c2: "commits exec fs rtf rtp committed w1 w'"
      using ih(4) unfolding first(2) by (rule commits_retire(1))
    have c: "commits exec fs rtf rtp ([x] @ committed) w w'"
      using first(1) c2 by (rule commits_append)
    have m: "\<forall>m \<in> set (stdout w'). m \<in> set (stdout w) \<or> m = Done \<or>
               (\<exists>r \<in> set (x # frontier). m = Applying r)"
      using ih(7) unfolding first(4) by auto
    show ?thesis
      using ih(1,2,3,5,6) c m first(2,3)
      by (intro exI [of _ "x # committed"] exI [of _ rest']) simp
  qed
qed

text \<open>
  A rule for the \<^verbatim>\<open>while\<close> loop: what holds when a pass starts and is kept by every pass
  that is followed by another one gives what holds of the result.
\<close>

lemma apply_loop_rule:
  assumes init: "I rtp frontier w"
    and pass: "\<And>rtp frontier w out rtp1 w1.
      I rtp frontier w \<Longrightarrow>
      for_each (apply_revision exec fs rtf) frontier
        (rtp, w\<lparr>rounds := rounds w @ [frontier]\<rparr>) = (out, rtp1, w1) \<Longrightarrow>
      (if out \<noteq> None \<or> no_outstanding_predecessors rtp1 = [] then Q out w1
       else I rtp1 (no_outstanding_predecessors rtp1) w1)"
  shows "Q (fst (apply_revisions_to_database exec fs rtf rtp frontier w))
           (snd (apply_revisions_to_database exec fs rtf rtp frontier w))"
  using assms
proof (induction exec fs rtf rtp frontier w rule: apply_revisions_to_database.induct)
  case (1 exec fs rtf rtp frontier w)
  obtain out rtp1 w1 where p:
    "for_each (apply_revision exec fs rtf) frontier
       (rtp, w\<lparr>rounds := rounds w @ [frontier]\<rparr>) = (out, rtp1, w1)"
    by (metis prod_cases3)
  note step = "1.prems"(2) [OF "1.prems"(1) p]
  show ?case
  proof (cases "out \<noteq> None \<or> no_outstanding_predecessors rtp1 = []")
    case True
    then have "apply_revisions_to_database exec fs rtf rtp frontier w = (out, w1)"
      using p by (subst apply_revisions_to_database.simps) (auto simp: Let_def)
    with step True show ?thesis by simp
  next
    case False
    then have eq: "apply_revisions_to_database exec fs rtf rtp frontier w =
        apply_revisions_to_database exec fs rtf rtp1 (no_outstanding_predecessors rtp1) w1"
      using p by (subst apply_revisions_to_database.simps) (simp add: Let_def)
    from step False have i: "I rtp1 (no_outstanding_predecessors rtp1) w1" by simp
    have "Q (fst (apply_revisions_to_database exec fs rtf rtp1 (no_outstanding_predecessors rtp1) w1))
            (snd (apply_revisions_to_database exec fs rtf rtp1 (no_outstanding_predecessors rtp1) w1))"
    proof (rule "1.IH" [of "(out, rtp1, w1)", unfolded fst_conv snd_conv])
      show "(out, rtp1, w1) = for_each (apply_revision exec fs rtf) frontier
              (rtp, w\<lparr>rounds := rounds w @ [frontier]\<rparr>)"
        using p by simp
      show "\<not> out \<noteq> None" using False by simp
      show "no_outstanding_predecessors rtp1 \<noteq> []" using False by simp
      show "I rtp1 (no_outstanding_predecessors rtp1) w1" by (rule i)
      show "\<And>rtp frontier w out rtp1 w1.
        I rtp frontier w \<Longrightarrow>
        for_each (apply_revision exec fs rtf) frontier
          (rtp, w\<lparr>rounds := rounds w @ [frontier]\<rparr>) = (out, rtp1, w1) \<Longrightarrow>
        (if out \<noteq> None \<or> no_outstanding_predecessors rtp1 = [] then Q out w1
         else I rtp1 (no_outstanding_predecessors rtp1) w1)"
        by (rule "1.prems"(2))
    qed
    then show ?thesis
      unfolding eq .
  qed
qed

lemma commits_transfer:
  assumes same: "\<And>r. map_of rtp r \<noteq> None \<Longrightarrow>
                   map_of rtp0 r \<noteq> None \<and> declared_of rtp r = declared_of rtp0 r"
    and c: "commits exec fs rtf rtp cs w w'"
  shows "commits exec fs rtf rtp0 cs w w'"
proof -
  from c have
    l: "list_all (\<lambda>revision. distinct (declared_of rtp revision) \<and> map_of rtp revision \<noteq> None) cs"
    unfolding commits_def by blast
  have s: "map_of rtp0 r \<noteq> None \<and> declared_of rtp r = declared_of rtp0 r" if "r \<in> set cs" for r
  proof (rule same)
    from l that show "map_of rtp r \<noteq> None"
      unfolding list_all_iff by blast
  qed
  have m: "map (\<lambda>revision. map (\<lambda>parent. (parent, revision)) (declared_of rtp revision)) cs =
           map (\<lambda>revision. map (\<lambda>parent. (parent, revision)) (declared_of rtp0 revision)) cs"
    using s by (intro map_cong) auto
  have l': "list_all (\<lambda>revision. distinct (declared_of rtp0 revision) \<and> map_of rtp0 revision \<noteq> None) cs"
    using l s by (auto simp: list_all_iff)
  from c show ?thesis
    unfolding commits_def m using l' by blast
qed

lemma fold_retire_keeps:
  "map_of (fold retire cs rtp) r \<noteq> None \<Longrightarrow>
   map_of rtp r \<noteq> None \<and> declared_of (fold retire cs rtp) r = declared_of rtp r \<and> r \<notin> set cs"
proof (induction cs arbitrary: rtp)
  case Nil
  then show ?case by simp
next
  case (Cons c cs)
  then have "map_of (fold retire cs (retire c rtp)) r \<noteq> None" by simp
  from Cons.IH [OF this] have
    ih: "map_of (retire c rtp) r \<noteq> None"
        "declared_of (fold retire cs (retire c rtp)) r = declared_of (retire c rtp) r" "r \<notin> set cs"
    by blast+
  from declared_of_retire [OF ih(1)] ih(2,3) show ?case by simp
qed

lemma commits_rounds:
  "commits exec fs rtf rtp cs (w\<lparr>rounds := rs\<rparr>) w' = commits exec fs rtf rtp cs w w'"
  by (simp add: commits_def)

lemma apply_revisions_to_database_commits:
  assumes "apply_revisions_to_database exec fs rtf rtp0 frontier0 w0 = (out, w')"
  shows "\<exists>committed rest new_rounds.
           rounds w' = rounds w0 @ new_rounds \<and> concat new_rounds = committed @ rest \<and>
           (out = None \<longrightarrow> rest = []) \<and> (out \<noteq> None \<longrightarrow> rest \<noteq> []) \<and>
           commits exec fs rtf rtp0 committed w0 w'"
proof -
  let ?I = "\<lambda>rtp (frontier :: string list) w.
      (\<exists>rs. rounds w = rounds w0 @ rs \<and> commits exec fs rtf rtp0 (concat rs) w0 w) \<and>
      (\<forall>r. map_of rtp r \<noteq> None \<longrightarrow>
           map_of rtp0 r \<noteq> None \<and> declared_of rtp r = declared_of rtp0 r)"
  let ?Q = "\<lambda>out w'. \<exists>committed rest new_rounds.
           rounds w' = rounds w0 @ new_rounds \<and> concat new_rounds = committed @ rest \<and>
           (out = None \<longrightarrow> rest = []) \<and> (out \<noteq> None \<longrightarrow> rest \<noteq> []) \<and>
           commits exec fs rtf rtp0 committed w0 w'"
  have "?Q (fst (apply_revisions_to_database exec fs rtf rtp0 frontier0 w0))
           (snd (apply_revisions_to_database exec fs rtf rtp0 frontier0 w0))"
  proof (rule apply_loop_rule [where I = ?I and Q = ?Q])
    have "rounds w0 = rounds w0 @ [] \<and> commits exec fs rtf rtp0 (concat []) w0 w0"
      by (simp add: commits_nil)
    then show "?I rtp0 frontier0 w0" by blast
  next
    fix rtp frontier w o1 rtp1 w1
    assume i: "?I rtp frontier w"
      and p: "for_each (apply_revision exec fs rtf) frontier
                (rtp, w\<lparr>rounds := rounds w @ [frontier]\<rparr>) = (o1, rtp1, w1)"
    from i obtain rs where
      rs: "rounds w = rounds w0 @ rs" "commits exec fs rtf rtp0 (concat rs) w0 w" and
      same: "\<And>r. map_of rtp r \<noteq> None \<Longrightarrow>
                   map_of rtp0 r \<noteq> None \<and> declared_of rtp r = declared_of rtp0 r"
      by blast
    from pass_commits [OF p] obtain committed rest where
      pc: "frontier = committed @ rest" "o1 = None \<longrightarrow> rest = []" "o1 \<noteq> None \<longrightarrow> rest \<noteq> []"
          "commits exec fs rtf rtp committed (w\<lparr>rounds := rounds w @ [frontier]\<rparr>) w1"
          "rtp1 = fold retire committed rtp"
          "rounds w1 = rounds (w\<lparr>rounds := rounds w @ [frontier]\<rparr>)"
      by blast
    have c1: "commits exec fs rtf rtp0 committed w w1"
      using same pc(4) unfolding commits_rounds by (rule commits_transfer)
    have c: "commits exec fs rtf rtp0 (concat rs @ committed) w0 w1"
      using rs(2) c1 by (rule commits_append)
    have r1: "rounds w1 = rounds w0 @ (rs @ [frontier])"
      using pc(6) rs(1) by simp
    have q: "?Q o1 w1"
    proof (intro exI conjI)
      show "rounds w1 = rounds w0 @ (rs @ [frontier])" by (rule r1)
      show "concat (rs @ [frontier]) = (concat rs @ committed) @ rest"
        using pc(1) by simp
      show "o1 = None \<longrightarrow> rest = []" by (rule pc(2))
      show "o1 \<noteq> None \<longrightarrow> rest \<noteq> []" by (rule pc(3))
      show "commits exec fs rtf rtp0 (concat rs @ committed) w0 w1" by (rule c)
    qed
    have next_i: "?I rtp1 (no_outstanding_predecessors rtp1) w1" if "o1 = None"
    proof (intro conjI allI impI exI)
      from that pc(1,2) have "frontier = committed" by simp
      then show "rounds w1 = rounds w0 @ (rs @ [committed])"
        using r1 by simp
      show "commits exec fs rtf rtp0 (concat (rs @ [committed])) w0 w1"
        using c by simp
    next
      fix r
      assume "map_of rtp1 r \<noteq> None"
      then have k: "map_of (fold retire committed rtp) r \<noteq> None"
        unfolding pc(5) .
      from fold_retire_keeps [OF k] have
        a: "map_of rtp r \<noteq> None" and
        b: "declared_of (fold retire committed rtp) r = declared_of rtp r"
        by blast+
      from same [OF a] b show "map_of rtp0 r \<noteq> None" and "declared_of rtp1 r = declared_of rtp0 r"
        unfolding pc(5) by simp_all
    qed
    show "if o1 \<noteq> None \<or> no_outstanding_predecessors rtp1 = [] then ?Q o1 w1
          else ?I rtp1 (no_outstanding_predecessors rtp1) w1"
    proof (cases "o1 \<noteq> None \<or> no_outstanding_predecessors rtp1 = []")
      case True
      show ?thesis unfolding if_P [OF True] by (rule q)
    next
      case False
      then have "o1 = None" by simp
      then show ?thesis unfolding if_not_P [OF False] by (rule next_i)
    qed
  qed
  then show ?thesis
    unfolding assms fst_conv snd_conv .
qed

section \<open>The migration that fails\<close>

text \<open>
  Whether the body of the \<^verbatim>\<open>for\<close> loop raises for a revision, and what it raises, depends
  on the two tables, the store and the predecessors the dictionary declares for it.
\<close>

lemma for_each_insert_dependent_revision_error:
  "revision_table w = revision_table v \<Longrightarrow>
   dependent_revision_table w = dependent_revision_table v \<Longrightarrow>
   fst (for_each (\<lambda>parent. insert_dependent_revision parent r) ps w) =
   fst (for_each (\<lambda>parent. insert_dependent_revision parent r) ps v)"
proof (induction ps arbitrary: w v)
  case Nil
  show ?case by simp
next
  case (Cons p ps)
  show ?case
  proof (cases "(p, r) \<in> set (dependent_revision_table w) \<or> p \<notin> set (revision_table w) \<or>
                r \<notin> set (revision_table w)")
    case True
    with Cons.prems show ?thesis
      by (auto simp: insert_dependent_revision_def)
  next
    case False
    let ?w1 = "record_ledger (w\<lparr>dependent_revision_table := dependent_revision_table w @ [(p, r)]\<rparr>)"
    let ?v1 = "record_ledger (v\<lparr>dependent_revision_table := dependent_revision_table v @ [(p, r)]\<rparr>)"
    from False Cons.prems have
      iw: "insert_dependent_revision p r w = (None, ?w1)" and
      iv: "insert_dependent_revision p r v = (None, ?v1)"
      by (simp_all add: insert_dependent_revision_def)
    have "fst (for_each (\<lambda>parent. insert_dependent_revision parent r) ps ?w1) =
          fst (for_each (\<lambda>parent. insert_dependent_revision parent r) ps ?v1)"
      using Cons.prems by (intro Cons.IH) (simp_all add: record_ledger_def)
    then show ?thesis
      by (simp add: iw iv)
  qed
qed

lemma fst_transaction: "fst (transaction body w) = fst (body w)"
  by (simp add: transaction_def split: prod.splits option.splits)

lemma apply_transaction_error:
  assumes r: "revision_table w = revision_table v"
    and d: "dependent_revision_table w = dependent_revision_table v"
    and s: "store w = store v"
    and m: "revision \<in> set (revision_table w) \<or>
            map_option fst (map_of rtp revision) = map_option fst (map_of rtp2 revision)"
  shows "fst (apply_transaction exec rtp revision cmd w) =
         fst (apply_transaction exec rtp2 revision cmd v)"
proof (cases "exec cmd (store w)")
  case None
  with s show ?thesis
    by (simp add: apply_transaction_def fst_transaction execute_def)
next
  case (Some st)
  show ?thesis
  proof (cases "revision \<in> set (revision_table w)")
    case True
    with Some s r show ?thesis
      by (simp add: apply_transaction_def fst_transaction execute_def insert_revision_def)
  next
    case False
    with m have me: "map_option fst (map_of rtp revision) = map_option fst (map_of rtp2 revision)"
      by simp
    let ?w1 = "record_ledger (w\<lparr>store := st, revision_table := revision_table w @ [revision]\<rparr>)"
    let ?v1 = "record_ledger (v\<lparr>store := st, revision_table := revision_table v @ [revision]\<rparr>)"
    have tw: "fst (apply_transaction exec rtp revision cmd w) =
          fst (case map_of rtp revision of
                 None \<Rightarrow> (Some (KeyError revision), ?w1)
               | Some (declared, outstanding) \<Rightarrow>
                   for_each (\<lambda>parent. insert_dependent_revision parent revision) declared ?w1)"
      using Some False
      by (simp add: apply_transaction_def fst_transaction execute_def insert_revision_def)
    have tv: "fst (apply_transaction exec rtp2 revision cmd v) =
          fst (case map_of rtp2 revision of
                 None \<Rightarrow> (Some (KeyError revision), ?v1)
               | Some (declared, outstanding) \<Rightarrow>
                   for_each (\<lambda>parent. insert_dependent_revision parent revision) declared ?v1)"
      using Some False s r
      by (simp add: apply_transaction_def fst_transaction execute_def insert_revision_def)
    show ?thesis
    proof (cases "map_of rtp revision")
      case None
      with me have "map_of rtp2 revision = None" by simp
      with None show ?thesis unfolding tw tv by simp
    next
      case (Some entry)
      obtain declared outstanding where e: "entry = (declared, outstanding)" by (cases entry)
      from me Some e obtain outstanding2 where
        e2: "map_of rtp2 revision = Some (declared, outstanding2)"
        by (cases "map_of rtp2 revision") auto
      have "fst (for_each (\<lambda>parent. insert_dependent_revision parent revision) declared ?w1) =
            fst (for_each (\<lambda>parent. insert_dependent_revision parent revision) declared ?v1)"
        using r d by (intro for_each_insert_dependent_revision_error) (simp_all add: record_ledger_def)
      then show ?thesis
        unfolding tw tv by (simp add: Some e e2)
    qed
  qed
qed

lemma apply_revision_error:
  assumes r: "revision_table w = revision_table v"
    and d: "dependent_revision_table w = dependent_revision_table v"
    and s: "store w = store v"
    and m: "revision \<in> set (revision_table w) \<or>
            map_option fst (map_of rtp revision) = map_option fst (map_of rtp2 revision)"
  shows "fst (apply_revision exec fs rtf revision (rtp, w)) =
         fst (apply_revision exec fs rtf revision (rtp2, v))"
proof (cases "map_of rtf revision")
  case None
  then show ?thesis by (simp add: apply_revision_def)
next
  case (Some path)
  show ?thesis
  proof (cases "read_file fs path")
    case None
    with Some show ?thesis by (simp add: apply_revision_def)
  next
    case cmd: (Some cmd)
    have t: "fst (apply_transaction exec rtp revision cmd (print (Applying revision) w)) =
          fst (apply_transaction exec rtp2 revision cmd (print (Applying revision) v))"
      using r d s m by (intro apply_transaction_error) (simp_all add: print_def)
    have a: "fst (apply_revision exec fs rtf revision (rtp', u)) =
             fst (apply_transaction exec rtp' revision cmd (print (Applying revision) u))"
      for rtp' and u :: "'a world"
      using Some cmd by (simp add: apply_revision_def split: prod.splits option.splits)
    show ?thesis
      unfolding a by (rule t)
  qed
qed

lemma apply_revision_abort_stdout:
  assumes "apply_revision exec fs rtf revision (rtp, w) = (Some e, rtp', w')"
  shows "stdout w' = stdout w @ (if script_of fs rtf revision = None then [] else [Applying revision])"
proof (cases "map_of rtf revision")
  case None
  with assms show ?thesis by (auto simp: apply_revision_def script_of_def)
next
  case (Some path)
  show ?thesis
  proof (cases "read_file fs path")
    case None
    with assms Some show ?thesis by (auto simp: apply_revision_def script_of_def)
  next
    case cmd: (Some cmd)
    with assms Some obtain w1 where
      t: "apply_transaction exec rtp revision cmd (print (Applying revision) w) = (Some e, w1)"
      and r: "w' = w1"
      by (auto simp: apply_revision_def split: option.splits prod.splits)
    from apply_transaction_abort [OF t, of 0] obtain j where
      "w1 = (print (Applying revision) w)\<lparr>journal := j\<rparr>"
      by auto
    with r Some cmd show ?thesis
      by (simp add: print_def script_of_def)
  qed
qed

lemma map_of_fold_retire:
  "map_option fst (map_of (fold retire cs rtp) r) =
     (if r \<in> set cs then None else map_option fst (map_of rtp r))"
proof (induction cs arbitrary: rtp)
  case Nil
  show ?case by simp
next
  case (Cons c cs)
  have "map_option fst (map_of (retire c rtp) r) =
        (if r = c then None else map_option fst (map_of rtp r))"
    by (cases "map_of rtp r") (auto simp: map_of_retire)
  then have step: "(if r \<in> set cs then None else map_option fst (map_of (retire c rtp) r)) =
        (if r \<in> set (c # cs) then None else map_option fst (map_of rtp r))"
    by (cases "r = c") simp_all
  have "map_option fst (map_of (fold retire (c # cs) rtp) r) =
        (if r \<in> set cs then None else map_option fst (map_of (retire c rtp) r))"
    using Cons.IH [of "retire c rtp"] by simp
  then show ?case unfolding step .
qed

text \<open>
  One pass over a frontier: the revisions up to the first one for which the body raises
  are committed; the error of the pass is the one the body raises for that revision, also
  on the state the pass leaves.
\<close>

lemma pass_outcome:
  assumes "for_each (apply_revision exec fs rtf) frontier (rtp, w) = (out, rtp', w')"
  shows "\<exists>committed rest.
           frontier = committed @ rest \<and> revision_table w' = revision_table w @ committed \<and>
           rtp' = fold retire committed rtp \<and>
           (out = None \<longrightarrow> rest = []) \<and>
           (out \<noteq> None \<longrightarrow>
              rest \<noteq> [] \<and> fst (apply_revision exec fs rtf (hd rest) (rtp', w')) = out) \<and>
           stdout w' =
             stdout w @ concat (map (\<lambda>r. [Applying r, Done]) committed) @
             (if out = None \<or> script_of fs rtf (hd rest) = None then [] else [Applying (hd rest)])"
  using assms
proof (induction frontier arbitrary: rtp w)
  case Nil
  then have "out = None" "rtp' = rtp" "w' = w" by simp_all
  then show ?case
    by (intro exI [of _ "[]"]) simp
next
  case (Cons x frontier)
  obtain o1 rtp1 w1 where s: "apply_revision exec fs rtf x (rtp, w) = (o1, rtp1, w1)"
    by (metis prod_cases3)
  show ?case
  proof (cases o1)
    case (Some e)
    with s Cons.prems have res: "out = Some e" "rtp' = rtp1" "w' = w1" by simp_all
    from s Some have s': "apply_revision exec fs rtf x (rtp, w) = (Some e, rtp1, w1)" by simp
    from apply_revision_abort [OF s', of 0]
    have ab: "rtp1 = rtp" "revision_table w1 = revision_table w"
      "dependent_revision_table w1 = dependent_revision_table w" "store w1 = store w"
      by simp_all
    have again: "fst (apply_revision exec fs rtf x (rtp, w1)) = Some e"
      using apply_revision_error [of w1 w x rtp rtp exec fs rtf] ab s' by simp
    note out = apply_revision_abort_stdout [OF s']
    show ?thesis
      unfolding res ab(1)
      apply (rule exI [of _ "[]"])
      apply (rule exI [of _ "x # frontier"])
      using ab(2) again out apply simp
      done
  next
    case None
    with s Cons.prems have rest: "for_each (apply_revision exec fs rtf) frontier (rtp1, w1) = (out, rtp', w')"
      by simp
    from s None have s': "apply_revision exec fs rtf x (rtp, w) = (None, rtp1, w1)" by simp
    note first = apply_revision_commits [OF s']
    from first(1) have r1: "revision_table w1 = revision_table w @ [x]"
      unfolding commits_def by blast
    from Cons.IH [OF rest] obtain committed rest' where
      ih: "frontier = committed @ rest'" "revision_table w' = revision_table w1 @ committed"
          "rtp' = fold retire committed rtp1" "out = None \<longrightarrow> rest' = []"
          "out \<noteq> None \<longrightarrow>
             rest' \<noteq> [] \<and> fst (apply_revision exec fs rtf (hd rest') (rtp', w')) = out"
          "stdout w' =
             stdout w1 @ concat (map (\<lambda>r. [Applying r, Done]) committed) @
             (if out = None \<or> script_of fs rtf (hd rest') = None then [] else [Applying (hd rest')])"
      by blast
    show ?thesis
    proof (rule exI [of _ "x # committed"], rule exI [of _ rest'], intro conjI)
      show "x # frontier = (x # committed) @ rest'" using ih(1) by simp
      show "revision_table w' = revision_table w @ x # committed"
        unfolding ih(2) r1 by simp
      show "rtp' = fold retire (x # committed) rtp"
        unfolding ih(3) first(2) by simp
      show "out = None \<longrightarrow> rest' = []" by (rule ih(4))
      show "out \<noteq> None \<longrightarrow>
             rest' \<noteq> [] \<and> fst (apply_revision exec fs rtf (hd rest') (rtp', w')) = out"
        by (rule ih(5))
      show "stdout w' =
             stdout w @ concat (map (\<lambda>r. [Applying r, Done]) (x # committed)) @
             (if out = None \<or> script_of fs rtf (hd rest') = None then [] else [Applying (hd rest')])"
        unfolding ih(6) first(4) by simp
    qed
  qed
qed

text \<open>
  The whole loop: the revisions of the rounds gone through, in order, up to the first one
  for which the body raises are committed, and the error of the call is the one the body
  raises for that revision on the tables and the store the call leaves.
\<close>

lemma apply_revisions_to_database_outcome:
  assumes run: "apply_revisions_to_database exec fs rtf rtp0 frontier0 w0 = (out, w')"
  shows "\<exists>committed rest.
           concat (drop (length (rounds w0)) (rounds w')) = committed @ rest \<and>
           revision_table w' = revision_table w0 @ committed \<and>
           (out = None \<longrightarrow> rest = []) \<and>
           (out \<noteq> None \<longrightarrow>
              rest \<noteq> [] \<and> fst (apply_revision exec fs rtf (hd rest) (rtp0, w')) = out) \<and>
           stdout w' =
             stdout w0 @ concat (map (\<lambda>r. [Applying r, Done]) committed) @
             (if out = None \<or> script_of fs rtf (hd rest) = None then [] else [Applying (hd rest)])"
proof -
  let ?I = "\<lambda>rtp (frontier :: string list) (w :: 'a world).
      \<exists>rs. rounds w = rounds w0 @ rs \<and> revision_table w = revision_table w0 @ concat rs \<and>
           rtp = fold retire (concat rs) rtp0 \<and>
           stdout w = stdout w0 @ concat (map (\<lambda>r. [Applying r, Done]) (concat rs))"
  let ?Q = "\<lambda>(out :: error option) (w' :: 'a world). \<exists>committed rest rs.
           rounds w' = rounds w0 @ rs \<and> concat rs = committed @ rest \<and>
           revision_table w' = revision_table w0 @ committed \<and>
           (out = None \<longrightarrow> rest = []) \<and>
           (out \<noteq> None \<longrightarrow>
              rest \<noteq> [] \<and> fst (apply_revision exec fs rtf (hd rest) (rtp0, w')) = out) \<and>
           stdout w' =
             stdout w0 @ concat (map (\<lambda>r. [Applying r, Done]) committed) @
             (if out = None \<or> script_of fs rtf (hd rest) = None then [] else [Applying (hd rest)])"
  have init: "?I rtp0 frontier0 w0"
    by (rule exI [of _ "[]"]) simp
  have pass: "if o1 \<noteq> None \<or> no_outstanding_predecessors rtp1 = [] then ?Q o1 w1
       else ?I rtp1 (no_outstanding_predecessors rtp1) w1"
    if i: "?I rtp frontier w"
      and p: "for_each (apply_revision exec fs rtf) frontier
                (rtp, w\<lparr>rounds := rounds w @ [frontier]\<rparr>) = (o1, rtp1, w1)"
    for rtp frontier w o1 rtp1 w1
  proof -
    from i obtain rs where
      rs: "rounds w = rounds w0 @ rs" "revision_table w = revision_table w0 @ concat rs"
          "rtp = fold retire (concat rs) rtp0"
          "stdout w = stdout w0 @ concat (map (\<lambda>r. [Applying r, Done]) (concat rs))"
      by blast
    from pass_commits [OF p] have
      rw: "rounds w1 = rounds (w\<lparr>rounds := rounds w @ [frontier]\<rparr>)"
      by blast
    from pass_outcome [OF p] obtain c rest where
      po: "frontier = c @ rest"
          "revision_table w1 = revision_table (w\<lparr>rounds := rounds w @ [frontier]\<rparr>) @ c"
          "rtp1 = fold retire c rtp" "o1 = None \<longrightarrow> rest = []"
          "o1 \<noteq> None \<longrightarrow>
             rest \<noteq> [] \<and> fst (apply_revision exec fs rtf (hd rest) (rtp1, w1)) = o1"
          "stdout w1 =
             stdout (w\<lparr>rounds := rounds w @ [frontier]\<rparr>) @
             concat (map (\<lambda>r. [Applying r, Done]) c) @
             (if o1 = None \<or> script_of fs rtf (hd rest) = None then [] else [Applying (hd rest)])"
      by blast
    have r1: "rounds w1 = rounds w0 @ (rs @ [frontier])"
      unfolding rw using rs(1) by simp
    have t1: "revision_table w1 = revision_table w0 @ (concat rs @ c)"
      unfolding po(2) using rs(2) by simp
    have d1: "rtp1 = fold retire (concat rs @ c) rtp0"
      unfolding po(3) rs(3) by simp
    have s1: "stdout w1 =
             stdout w0 @ concat (map (\<lambda>r. [Applying r, Done]) (concat rs @ c)) @
             (if o1 = None \<or> script_of fs rtf (hd rest) = None then [] else [Applying (hd rest)])"
      unfolding po(6) using rs(4) by simp
    have f1: "fst (apply_revision exec fs rtf (hd rest) (rtp0, w1)) = o1" if "o1 \<noteq> None"
    proof -
      have "hd rest \<in> set (revision_table w1) \<or>
            map_option fst (map_of rtp1 (hd rest)) = map_option fst (map_of rtp0 (hd rest))"
        unfolding d1 map_of_fold_retire t1 by simp
      then have "fst (apply_revision exec fs rtf (hd rest) (rtp1, w1)) =
            fst (apply_revision exec fs rtf (hd rest) (rtp0, w1))"
        by (intro apply_revision_error refl)
      with po(5) that show ?thesis by simp
    qed
    have q: "?Q o1 w1"
    proof (rule exI [of _ "concat rs @ c"], rule exI [of _ rest], rule exI [of _ "rs @ [frontier]"],
        intro conjI)
      show "rounds w1 = rounds w0 @ (rs @ [frontier])" by (rule r1)
      show "concat (rs @ [frontier]) = (concat rs @ c) @ rest" using po(1) by simp
      show "revision_table w1 = revision_table w0 @ (concat rs @ c)" by (rule t1)
      show "o1 = None \<longrightarrow> rest = []" by (rule po(4))
      show "o1 \<noteq> None \<longrightarrow>
              rest \<noteq> [] \<and> fst (apply_revision exec fs rtf (hd rest) (rtp0, w1)) = o1"
        using po(5) f1 by blast
      show "stdout w1 =
             stdout w0 @ concat (map (\<lambda>r. [Applying r, Done]) (concat rs @ c)) @
             (if o1 = None \<or> script_of fs rtf (hd rest) = None then [] else [Applying (hd rest)])"
        by (rule s1)
    qed
    show ?thesis
    proof (cases "o1 \<noteq> None \<or> no_outstanding_predecessors rtp1 = []")
      case True
      show ?thesis unfolding if_P [OF True] by (rule q)
    next
      case False
      then have none: "o1 = None" by simp
      with po(1,4) have fc: "frontier = c" by simp
      have "?I rtp1 (no_outstanding_predecessors rtp1) w1"
      proof (rule exI [of _ "rs @ [frontier]"], intro conjI)
        show "rounds w1 = rounds w0 @ (rs @ [frontier])" by (rule r1)
        show "revision_table w1 = revision_table w0 @ concat (rs @ [frontier])"
          unfolding t1 fc by simp
        show "rtp1 = fold retire (concat (rs @ [frontier])) rtp0"
          unfolding d1 fc by simp
        show "stdout w1 =
                stdout w0 @ concat (map (\<lambda>r. [Applying r, Done]) (concat (rs @ [frontier])))"
          unfolding s1 fc using none by simp
      qed
      then show ?thesis unfolding if_not_P [OF False] .
    qed
  qed
  have "?Q (fst (apply_revisions_to_database exec fs rtf rtp0 frontier0 w0))
           (snd (apply_revisions_to_database exec fs rtf rtp0 frontier0 w0))"
    by (rule apply_loop_rule [where I = ?I and Q = ?Q, OF init pass])
  then obtain committed rest rs where
    q: "rounds w' = rounds w0 @ rs" "concat rs = committed @ rest"
       "revision_table w' = revision_table w0 @ committed"
       "out = None \<longrightarrow> rest = []"
       "out \<noteq> None \<longrightarrow>
          rest \<noteq> [] \<and> fst (apply_revision exec fs rtf (hd rest) (rtp0, w')) = out"
       "stdout w' =
          stdout w0 @ concat (map (\<lambda>r. [Applying r, Done]) committed) @
          (if out = None \<or> script_of fs rtf (hd rest) = None then [] else [Applying (hd rest)])"
    unfolding run fst_conv snd_conv by blast
  have "concat (drop (length (rounds w0)) (rounds w')) = committed @ rest"
    unfolding q(1) using q(2) by simp
  with q(3,4,5,6) show ?thesis
    by (intro exI [of _ committed] exI [of _ rest] conjI)
qed

lemma dict_keys_fold_retire_subset:
  "set (dict_keys (fold retire cs rtp)) \<subseteq> set (dict_keys rtp)"
proof (induction cs arbitrary: rtp)
  case Nil
  show ?case by simp
next
  case (Cons c cs)
  have "set (dict_keys (retire c rtp)) \<subseteq> set (dict_keys rtp)"
    by (force simp: retire_def dict_del_def dict_keys_def)
  with Cons.IH [of "retire c rtp"] show ?case by auto
qed

lemma no_outstanding_predecessors_keys:
  "set (no_outstanding_predecessors rtp) \<subseteq> set (dict_keys rtp)"
  by (force simp: no_outstanding_predecessors_def dict_keys_def)

text \<open>Every round is made of keys of the dictionary, when the first one is.\<close>

lemma rounds_within_keys:
  assumes f0: "set frontier0 \<subseteq> set (dict_keys rtp0)"
    and run: "apply_revisions_to_database exec fs rtf rtp0 frontier0 w0 = (out, w')"
  shows "set (concat (drop (length (rounds w0)) (rounds w'))) \<subseteq> set (dict_keys rtp0)"
proof -
  let ?K = "set (dict_keys rtp0)"
  let ?I = "\<lambda>rtp (frontier :: string list) (w :: 'a world).
      (\<exists>rs. rounds w = rounds w0 @ rs \<and> set (concat rs) \<subseteq> ?K) \<and>
      set frontier \<subseteq> ?K \<and> set (dict_keys rtp) \<subseteq> ?K"
  let ?Q = "\<lambda>(out :: error option) (w' :: 'a world).
      \<exists>rs. rounds w' = rounds w0 @ rs \<and> set (concat rs) \<subseteq> ?K"
  have init: "?I rtp0 frontier0 w0"
    using f0 by (intro conjI exI [of _ "[]"]) simp_all
  have pass: "if o1 \<noteq> None \<or> no_outstanding_predecessors rtp1 = [] then ?Q o1 w1
       else ?I rtp1 (no_outstanding_predecessors rtp1) w1"
    if i: "?I rtp frontier w"
      and p: "for_each (apply_revision exec fs rtf) frontier
                (rtp, w\<lparr>rounds := rounds w @ [frontier]\<rparr>) = (o1, rtp1, w1)"
    for rtp frontier w o1 rtp1 w1
  proof -
    from i obtain rs where
      rs: "rounds w = rounds w0 @ rs" "set (concat rs) \<subseteq> ?K" and
      fk: "set frontier \<subseteq> ?K" and kk: "set (dict_keys rtp) \<subseteq> ?K"
      by blast
    from pass_commits [OF p] obtain committed where
      rw: "rounds w1 = rounds (w\<lparr>rounds := rounds w @ [frontier]\<rparr>)" and
      d1: "rtp1 = fold retire committed rtp"
      by blast
    have r1: "rounds w1 = rounds w0 @ (rs @ [frontier])"
      unfolding rw using rs(1) by simp
    have c1: "set (concat (rs @ [frontier])) \<subseteq> ?K"
      using rs(2) fk by simp
    have q: "?Q o1 w1"
      using r1 c1 by (intro exI [of _ "rs @ [frontier]"] conjI)
    have k1: "set (dict_keys rtp1) \<subseteq> ?K"
      unfolding d1 using dict_keys_fold_retire_subset [of committed rtp] kk by blast
    have n1: "set (no_outstanding_predecessors rtp1) \<subseteq> ?K"
      using no_outstanding_predecessors_keys [of rtp1] k1 by blast
    show ?thesis
    proof (cases "o1 \<noteq> None \<or> no_outstanding_predecessors rtp1 = []")
      case True
      show ?thesis unfolding if_P [OF True] by (rule q)
    next
      case False
      have "?I rtp1 (no_outstanding_predecessors rtp1) w1"
        using q n1 k1 by (intro conjI)
      then show ?thesis unfolding if_not_P [OF False] .
    qed
  qed
  have "?Q (fst (apply_revisions_to_database exec fs rtf rtp0 frontier0 w0))
           (snd (apply_revisions_to_database exec fs rtf rtp0 frontier0 w0))"
    by (rule apply_loop_rule [where I = ?I and Q = ?Q, OF init pass])
  then obtain rs where "rounds w' = rounds w0 @ rs" "set (concat rs) \<subseteq> ?K"
    unfolding run fst_conv snd_conv by blast
  then show ?thesis by simp
qed

section \<open>Claim C3: one transaction for each migration\<close>

text \<open>
  C3. Whatever \<^verbatim>\<open>_apply_revisions_to_database\<close> is called with and however it ends, the
  revisions of the rounds it went through, in the order of the loop, split into those
  committed and the rest. The database holds exactly the complete effect of the committed
  ones, in order: each has run its script on the store, has its one new row in \<open>revision\<close>
  and one row in \<open>dependent_revision\<close> for each predecessor it declares (none declared
  twice), and each was reported with \<^verbatim>\<open>DONE\<close>. When the call returns normally nothing is left
  over. When it raises, the rest starts with the migration that failed: the error of the
  call is the one the body of the loop raises for it on the tables and the store the call
  leaves, so it is the first migration that cannot commit after the committed ones; it was
  announced, if its script could be read, and not reported done. Neither it nor the ones
  after it have left anything, while everything committed before stays.
\<close>

theorem each_migration_is_one_transaction:
  assumes "apply_revisions_to_database exec fs revision_to_file revision_to_predecessors
             frontier w = (out, w')"
  shows "\<exists>committed rest.
           concat (drop (length (rounds w)) (rounds w')) = committed @ rest \<and>
           (out = None \<longrightarrow> rest = []) \<and>
           (out \<noteq> None \<longrightarrow>
              rest \<noteq> [] \<and>
              fst (apply_revision exec fs revision_to_file (hd rest) (revision_to_predecessors, w')) =
                out) \<and>
           stdout w' =
             stdout w @ concat (map (\<lambda>revision. [Applying revision, Done]) committed) @
             (if out = None \<or> script_of fs revision_to_file (hd rest) = None then []
              else [Applying (hd rest)]) \<and>
           revision_table w' = revision_table w @ committed \<and>
           distinct committed \<and> set committed \<inter> set (revision_table w) = {} \<and>
           dependent_revision_table w' =
             dependent_revision_table w @
             concat (map (\<lambda>revision. map (\<lambda>parent. (parent, revision))
                                       (declared_of revision_to_predecessors revision)) committed) \<and>
           (\<forall>revision \<in> set committed. distinct (declared_of revision_to_predecessors revision)) \<and>
           run_scripts exec (map (script_of fs revision_to_file) committed) (store w) =
             Some (store w')"
proof -
  from apply_revisions_to_database_outcome [OF assms] obtain committed rest where
    o: "concat (drop (length (rounds w)) (rounds w')) = committed @ rest"
       "revision_table w' = revision_table w @ committed"
       "out = None \<longrightarrow> rest = []"
       "out \<noteq> None \<longrightarrow>
          rest \<noteq> [] \<and>
          fst (apply_revision exec fs revision_to_file (hd rest) (revision_to_predecessors, w')) = out"
       "stdout w' =
          stdout w @ concat (map (\<lambda>revision. [Applying revision, Done]) committed) @
          (if out = None \<or> script_of fs revision_to_file (hd rest) = None then []
           else [Applying (hd rest)])"
    by blast
  from apply_revisions_to_database_commits [OF assms] obtain committed2 where
    c: "commits exec fs revision_to_file revision_to_predecessors committed2 w w'"
    by blast
  from c have "revision_table w' = revision_table w @ committed2"
    unfolding commits_def by blast
  with o(2) have "committed2 = committed" by simp
  with c have
    "distinct committed" "set committed \<inter> set (revision_table w) = {}"
    "dependent_revision_table w' =
       dependent_revision_table w @
       concat (map (\<lambda>revision. map (\<lambda>parent. (parent, revision))
                                 (declared_of revision_to_predecessors revision)) committed)"
    "\<forall>revision \<in> set committed. distinct (declared_of revision_to_predecessors revision)"
    "run_scripts exec (map (script_of fs revision_to_file) committed) (store w) = Some (store w')"
    unfolding commits_def list_all_iff by blast+
  with o show ?thesis
    by (intro exI [of _ committed] exI [of _ rest] conjI)
qed

theorem each_migration_is_one_transaction_witness:
  "apply_migrations log_exec fs_partial (world_with [''Z''] []) =
     (Some (IntegrityError ''dependent_revisions_pk''),
      \<lparr>revision_table = [''Z'', ''A''], dependent_revision_table = [],
       store = [''create table a ();''],
       stdout = [Finding_applied, Found_applied 1, Found_to_apply 2,
                 Applying ''A'', Done, Applying ''B''],
       journal = [([''Z'', ''A''], []), ([''Z'', ''A'', ''B''], []),
                  ([''Z'', ''A'', ''B''], [(''Z'', ''B'')])],
       rounds = [[''A'', ''B'']]\<rparr>) \<and>
   (\<exists>rest. [''A'', ''B''] = [''A''] @ rest \<and> rest \<noteq> [] \<and>
      fst (apply_revision log_exec fs_partial
             [(''A'', ''/m/up/A.sql''), (''B'', ''/m/up/B.sql'')] (hd rest)
             ([(''A'', [], []), (''B'', [''Z'', ''Z''], [])],
              \<lparr>revision_table = [''Z'', ''A''], dependent_revision_table = [],
               store = [''create table a ();''],
               stdout = [Applying ''A'', Done, Applying ''B''],
               journal = [([''Z'', ''A''], []), ([''Z'', ''A'', ''B''], []),
                          ([''Z'', ''A'', ''B''], [(''Z'', ''B'')])],
               rounds = [[''A'', ''B'']]\<rparr>)) =
        Some (IntegrityError ''dependent_revisions_pk'') \<and>
      run_scripts log_exec
        (map (script_of fs_partial [(''A'', ''/m/up/A.sql''), (''B'', ''/m/up/B.sql'')]) [''A''])
        [] = Some [''create table a ();''])"
proof -
  let ?rtf = "[(''A'', ''/m/up/A.sql''), (''B'', ''/m/up/B.sql'')] :: string dict"
  let ?rtp = "[(''A'', [], []), (''B'', [''Z'', ''Z''], [])] :: predecessors"
  let ?w = "world_with [''Z''] [] :: string list world"
  let ?w' = "\<lparr>revision_table = [''Z'', ''A''], dependent_revision_table = [],
       store = [''create table a ();''],
       stdout = [Applying ''A'', Done, Applying ''B''],
       journal = [([''Z'', ''A''], []), ([''Z'', ''A'', ''B''], []),
                  ([''Z'', ''A'', ''B''], [(''Z'', ''B'')])],
       rounds = [[''A'', ''B'']]\<rparr> :: string list world"
  have whole: "apply_migrations log_exec fs_partial ?w =
     (Some (IntegrityError ''dependent_revisions_pk''),
      \<lparr>revision_table = [''Z'', ''A''], dependent_revision_table = [],
       store = [''create table a ();''],
       stdout = [Finding_applied, Found_applied 1, Found_to_apply 2,
                 Applying ''A'', Done, Applying ''B''],
       journal = [([''Z'', ''A''], []), ([''Z'', ''A'', ''B''], []),
                  ([''Z'', ''A'', ''B''], [(''Z'', ''B'')])],
       rounds = [[''A'', ''B'']]\<rparr>)"
    by code_simp
  have run: "apply_revisions_to_database log_exec fs_partial ?rtf ?rtp [''A'', ''B''] ?w =
     (Some (IntegrityError ''dependent_revisions_pk''), ?w')"
    by code_simp
  from each_migration_is_one_transaction [OF run] obtain committed rest where
    a: "concat (drop (length (rounds ?w)) (rounds ?w')) = committed @ rest" and
    b: "Some (IntegrityError ''dependent_revisions_pk'') \<noteq> None \<longrightarrow>
          rest \<noteq> [] \<and>
          fst (apply_revision log_exec fs_partial ?rtf (hd rest) (?rtp, ?w')) =
            Some (IntegrityError ''dependent_revisions_pk'')" and
    c: "revision_table ?w' = revision_table ?w @ committed" and
    d: "run_scripts log_exec (map (script_of fs_partial ?rtf) committed) (store ?w) =
          Some (store ?w')"
    by blast
  from c have cm: "committed = [''A'']"
    by (simp add: world_with_def)
  from a have "[''A'', ''B''] = [''A''] @ rest"
    unfolding cm by (simp add: world_with_def)
  moreover from b have "rest \<noteq> []"
    "fst (apply_revision log_exec fs_partial ?rtf (hd rest) (?rtp, ?w')) =
       Some (IntegrityError ''dependent_revisions_pk'')"
    by simp_all
  moreover from d have "run_scripts log_exec (map (script_of fs_partial ?rtf) [''A'']) [] =
      Some [''create table a ();'']"
    unfolding cm by (simp add: world_with_def)
  ultimately show ?thesis
    using whole by blast
qed

section \<open>Claim C1: the check for unresolvable dependencies\<close>

text \<open>
  C1, as the code has it. The guard of lines 169 to 176 looks at the first frontier only.
  Let the files of the pending migrations be readable. When a migration is pending and
  every pending migration declares a predecessor that is not applied (a migration that
  names itself and two migrations that name each other are such catalogs),
  \<^verbatim>\<open>apply_migrations\<close> prints its message and leaves with exit status 1: no table row,
  nothing in the store and no round has changed, so no script has run. In every other
  case, nothing pending or a pending migration all of whose declared predecessors are
  applied, the run does not take this exit and does not print the message, whatever the
  predecessor graph is: a cycle that stands beside such a migration is not detected.
\<close>

theorem invalid_dependencies_exit:
  assumes rd: "read_revisions fs (revision_table w) (pending fs w) [] = Inr revision_to_predecessors"
  shows "if pending fs w \<noteq> [] \<and>
            (\<forall>(revision, declared, outstanding) \<in> set revision_to_predecessors.
               \<exists>p \<in> set declared. p \<notin> set (revision_table w))
         then apply_migrations exec fs w =
                (Some (SystemExit 1),
                 w\<lparr>stdout := stdout w @
                      [Finding_applied, Found_applied (length (revision_table w)),
                       Found_to_apply (length (pending fs w)), Invalid_dependencies]\<rparr>)
         else (\<forall>n. fst (apply_migrations exec fs w) \<noteq> Some (SystemExit n)) \<and>
              Invalid_dependencies \<notin>
                set (drop (length (stdout w)) (stdout (snd (apply_migrations exec fs w))))"
proof (cases "pending fs w \<noteq> [] \<and>
            (\<forall>(revision, declared, outstanding) \<in> set revision_to_predecessors.
               \<exists>p \<in> set declared. p \<notin> set (revision_table w))")
  case True
  then have ne: "pending fs w \<noteq> []" and
    all: "\<forall>(revision, declared, outstanding) \<in> set revision_to_predecessors.
               \<exists>p \<in> set declared. p \<notin> set (revision_table w)"
    by blast+
  have "outstanding \<noteq> []" if "(revision, declared, outstanding) \<in> set revision_to_predecessors"
    for revision declared outstanding
  proof -
    from read_revisions_pending(3) [OF rd] that
    have "outstanding = filter (\<lambda>p. p \<notin> set (revision_table w)) declared" by auto
    moreover from all that obtain p where "p \<in> set declared" "p \<notin> set (revision_table w)"
      by auto
    ultimately show ?thesis by (auto simp: filter_empty_conv)
  qed
  then have "no_outstanding_predecessors revision_to_predecessors = []"
    by (auto simp: no_outstanding_predecessors_def)
  with rd ne have "apply_migrations exec fs w =
                (Some (SystemExit 1),
                 w\<lparr>stdout := stdout w @
                      [Finding_applied, Found_applied (length (revision_table w)),
                       Found_to_apply (length (pending fs w)), Invalid_dependencies]\<rparr>)"
    by (simp add: apply_migrations_unfold print_def)
  then show ?thesis
    unfolding if_P [OF True] .
next
  case False
  have "(\<forall>n. fst (apply_migrations exec fs w) \<noteq> Some (SystemExit n)) \<and>
        Invalid_dependencies \<notin>
          set (drop (length (stdout w)) (stdout (snd (apply_migrations exec fs w))))"
  proof (cases "pending fs w = []")
    case True
    then show ?thesis
      by (simp add: apply_migrations_unfold print_def)
  next
    case ne: False
    with False obtain revision declared outstanding where
      entry: "(revision, declared, outstanding) \<in> set revision_to_predecessors" and
      ap: "\<forall>p \<in> set declared. p \<in> set (revision_table w)"
      by blast
    from read_revisions_pending(3) [OF rd] entry
    have "outstanding = filter (\<lambda>p. p \<notin> set (revision_table w)) declared" by auto
    with ap have "outstanding = []" by (simp add: filter_empty_conv)
    with entry have "revision \<in> set (no_outstanding_predecessors revision_to_predecessors)"
      by (force simp: no_outstanding_predecessors_def)
    then have el: "no_outstanding_predecessors revision_to_predecessors \<noteq> []" by auto
    let ?w3 = "print (Found_to_apply (length (pending fs w)))
                 (print (Found_applied (length (revision_table w))) (print Finding_applied w))"
    let ?run = "apply_revisions_to_database exec fs (pending fs w) revision_to_predecessors
                  (no_outstanding_predecessors revision_to_predecessors) ?w3"
    have eq: "apply_migrations exec fs w = ?run"
      using ne rd el by (simp add: apply_migrations_unfold)
    obtain out w' where run: "?run = (out, w')" by (cases ?run)
    from apply_revisions_to_database_outcome [OF run] obtain committed rest where
      so: "stdout w' =
             stdout ?w3 @ concat (map (\<lambda>r. [Applying r, Done]) committed) @
             (if out = None \<or> script_of fs (pending fs w) (hd rest) = None then []
              else [Applying (hd rest)])"
      by blast
    have "Invalid_dependencies \<notin> set (drop (length (stdout w)) (stdout w'))"
      unfolding so by (auto simp: print_def)
    moreover have "\<forall>n. fst ?run \<noteq> Some (SystemExit n)"
      by (simp add: apply_revisions_to_database_no_exit)
    ultimately show ?thesis
      unfolding eq run by simp
  qed
  then show ?thesis
    unfolding if_not_P [OF False] .
qed

theorem invalid_dependencies_exit_witness:
  "apply_migrations log_exec fs_mutual (world_with [] []) =
     (Some (SystemExit 1),
      (world_with [] [])\<lparr>stdout := [Finding_applied, Found_applied 0, Found_to_apply 2,
                                      Invalid_dependencies]\<rparr>) \<and>
   apply_migrations log_exec fs_self (world_with [''A''] []) =
     (Some (SystemExit 1),
      (world_with [''A''] [])\<lparr>stdout := [Finding_applied, Found_applied 1, Found_to_apply 1,
                                           Invalid_dependencies]\<rparr>) \<and>
   (\<forall>n. fst (apply_migrations log_exec fs_cycle_beside (world_with [] [])) \<noteq> Some (SystemExit n)) \<and>
   (\<forall>n. fst (apply_migrations log_exec fs_single (world_with [''A''] [])) \<noteq> Some (SystemExit n))"
proof -
  have m1: "read_revisions fs_mutual (revision_table (world_with [] []))
              (pending fs_mutual (world_with [] [])) [] =
            Inr [(''E'', [''F''], [''F'']), (''F'', [''E''], [''E''])]"
    by code_simp
  have m2: "pending fs_mutual (world_with [] []) \<noteq> []"
    by code_simp
  have m3: "\<forall>(revision, declared, outstanding) \<in> set [(''E'', [''F''], [''F'']), (''F'', [''E''], [''E''])].
              \<exists>p \<in> set declared. p \<notin> set (revision_table (world_with [] []))"
    by (simp add: world_with_def)
  have m4: "length (pending fs_mutual (world_with [] [])) = 2"
    by code_simp
  have s1: "read_revisions fs_self (revision_table (world_with [''A''] []))
              (pending fs_self (world_with [''A''] [])) [] = Inr [(''S'', [''S''], [''S''])]"
    by code_simp
  have s2: "pending fs_self (world_with [''A''] []) \<noteq> []"
    by code_simp
  have s3: "\<forall>(revision, declared, outstanding) \<in> set [(''S'', [''S''], [''S''])].
              \<exists>p \<in> set declared. p \<notin> set (revision_table (world_with [''A''] []))"
    by (simp add: world_with_def)
  have s4: "length (pending fs_self (world_with [''A''] [])) = 1"
    by code_simp
  have c1: "read_revisions fs_cycle_beside (revision_table (world_with [] []))
              (pending fs_cycle_beside (world_with [] [])) [] =
            Inr [(''A'', [], []), (''E'', [''F''], [''F'']), (''F'', [''E''], [''E''])]"
    by code_simp
  have c3: "\<not> (pending fs_cycle_beside (world_with [] []) \<noteq> [] \<and>
              (\<forall>(revision, declared, outstanding) \<in>
                   set [(''A'', [], []), (''E'', [''F''], [''F'']), (''F'', [''E''], [''E''])].
                 \<exists>p \<in> set declared. p \<notin> set (revision_table (world_with [] []))))"
    by simp
  have n1: "read_revisions fs_single (revision_table (world_with [''A''] []))
              (pending fs_single (world_with [''A''] [])) [] = Inr []"
    by code_simp
  have n2: "pending fs_single (world_with [''A''] []) = []"
    by code_simp
  have n3: "\<not> (pending fs_single (world_with [''A''] []) \<noteq> [] \<and>
              (\<forall>(revision, declared, outstanding) \<in> set ([] :: predecessors).
                 \<exists>p \<in> set declared. p \<notin> set (revision_table (world_with [''A''] []))))"
    using n2 by simp
  note mutual = invalid_dependencies_exit [OF m1, of log_exec, unfolded if_P [OF conjI [OF m2 m3]]]
  note self = invalid_dependencies_exit [OF s1, of log_exec, unfolded if_P [OF conjI [OF s2 s3]]]
  note beside = invalid_dependencies_exit [OF c1, of log_exec, unfolded if_not_P [OF c3]]
  note applied = invalid_dependencies_exit [OF n1, of log_exec, unfolded if_not_P [OF n3]]
  have "apply_migrations log_exec fs_mutual (world_with [] []) =
     (Some (SystemExit 1),
      (world_with [] [])\<lparr>stdout := [Finding_applied, Found_applied 0, Found_to_apply 2,
                                      Invalid_dependencies]\<rparr>)"
    using mutual m4 by (simp add: world_with_def)
  moreover have "apply_migrations log_exec fs_self (world_with [''A''] []) =
     (Some (SystemExit 1),
      (world_with [''A''] [])\<lparr>stdout := [Finding_applied, Found_applied 1, Found_to_apply 1,
                                           Invalid_dependencies]\<rparr>)"
    using self s4 by (simp add: world_with_def)
  moreover from beside
  have "\<forall>n. fst (apply_migrations log_exec fs_cycle_beside (world_with [] [])) \<noteq> Some (SystemExit n)"
    by (rule conjunct1)
  moreover from applied
  have "\<forall>n. fst (apply_migrations log_exec fs_single (world_with [''A''] [])) \<noteq> Some (SystemExit n)"
    by (rule conjunct1)
  ultimately show ?thesis
    by (intro conjI)
qed

text \<open>
  C1 as stated fails: beside the cycle of \<^verbatim>\<open>E\<close> and \<^verbatim>\<open>F\<close> stands \<^verbatim>\<open>A\<close>, which declares
  nothing. The first frontier is \<^verbatim>\<open>[A]\<close>, so the guard lets the run through; \<^verbatim>\<open>A\<close> is
  applied, the loop then finds nothing eligible and ends, and the run returns normally
  with \<^verbatim>\<open>E\<close> and \<^verbatim>\<open>F\<close> unapplied.
\<close>

theorem cyclic_graph_counterexample:
  "read_revisions fs_cycle_beside [] (pending fs_cycle_beside (world_with [] [])) [] =
     Inr [(''A'', [], []), (''E'', [''F''], [''F'']), (''F'', [''E''], [''E''])] \<and>
   \<not> acyclic (set (declared_edges
                     [(''A'', [], []), (''E'', [''F''], [''F'']), (''F'', [''E''], [''E''])])) \<and>
   apply_migrations log_exec fs_cycle_beside (world_with [] []) =
     (None, \<lparr>revision_table = [''A''], dependent_revision_table = [],
             store = [''create table a ();''],
             stdout = [Finding_applied, Found_applied 0, Found_to_apply 3, Applying ''A'', Done],
             journal = [([''A''], [])], rounds = [[''A'']]\<rparr>)"
  by code_simp

section \<open>Claim C7: an applied revision that is not in the catalog\<close>

text \<open>
  C7, as the code has it. The loop of lines 145 to 147 deletes from the dictionary the
  applied revisions it finds there and passes over the others: the pending migrations are
  the catalog entries that are not rows of \<open>revision\<close>, the same as if the rows absent from
  the catalog were not there. With nothing pending the run returns normally. An error that
  ends a run is the unreadable file of a pending migration, or the exit of line 176 when
  no pending migration is free of unapplied predecessors, or the error that the body of
  the loop raises for one pending migration on the tables and the store the run leaves.
  A row of \<open>revision\<close> that is absent from the catalog is never the reason.
\<close>

theorem applied_absent_from_catalog_is_skipped:
  "pending fs w =
     filter (\<lambda>(revision, path). revision \<notin> set (revision_table w)) (load_revision_to_file fs) \<and>
   pending fs w =
     drop_applied
       (filter (\<lambda>applied. applied \<in> set (dict_keys (load_revision_to_file fs))) (revision_table w))
       (load_revision_to_file fs) \<and>
   (pending fs w = [] \<longrightarrow> fst (apply_migrations exec fs w) = None) \<and>
   (\<forall>e. fst (apply_migrations exec fs w) = Some e \<longrightarrow>
      (\<exists>(revision, path) \<in> set (pending fs w).
         read_file fs path = None \<and> e = FileNotFoundError path) \<or>
      (\<exists>revision_to_predecessors.
         read_revisions fs (revision_table w) (pending fs w) [] = Inr revision_to_predecessors \<and>
         (no_outstanding_predecessors revision_to_predecessors = [] \<and> e = SystemExit 1 \<or>
          (\<exists>revision \<in> set (dict_keys (pending fs w)).
             fst (apply_revision exec fs (pending fs w) revision
                    (revision_to_predecessors, snd (apply_migrations exec fs w))) = Some e))))"
proof (intro conjI impI allI)
  show "pending fs w =
     filter (\<lambda>(revision, path). revision \<notin> set (revision_table w)) (load_revision_to_file fs)"
    by (simp add: pending_def drop_applied_filter)
  show "pending fs w =
     drop_applied
       (filter (\<lambda>applied. applied \<in> set (dict_keys (load_revision_to_file fs))) (revision_table w))
       (load_revision_to_file fs)"
    by (force simp: pending_def drop_applied_filter dict_keys_def intro!: filter_cong)
  show "fst (apply_migrations exec fs w) = None" if "pending fs w = []"
    using that by (simp add: apply_migrations_unfold)
next
  fix e
  assume err: "fst (apply_migrations exec fs w) = Some e"
  then have ne: "pending fs w \<noteq> []"
    by (auto simp: apply_migrations_unfold split: if_splits)
  show "(\<exists>(revision, path) \<in> set (pending fs w).
         read_file fs path = None \<and> e = FileNotFoundError path) \<or>
      (\<exists>revision_to_predecessors.
         read_revisions fs (revision_table w) (pending fs w) [] = Inr revision_to_predecessors \<and>
         (no_outstanding_predecessors revision_to_predecessors = [] \<and> e = SystemExit 1 \<or>
          (\<exists>revision \<in> set (dict_keys (pending fs w)).
             fst (apply_revision exec fs (pending fs w) revision
                    (revision_to_predecessors, snd (apply_migrations exec fs w))) = Some e)))"
  proof (cases "read_revisions fs (revision_table w) (pending fs w) []")
    case (Inl e')
    with err ne have "e = e'"
      by (simp add: apply_migrations_unfold)
    with read_revisions_error [OF Inl] show ?thesis by blast
  next
    case (Inr rtp)
    show ?thesis
    proof (cases "no_outstanding_predecessors rtp = []")
      case True
      with err ne Inr have "e = SystemExit 1"
        by (simp add: apply_migrations_unfold)
      with True Inr show ?thesis by blast
    next
      case False
      let ?w3 = "print (Found_to_apply (length (pending fs w)))
                   (print (Found_applied (length (revision_table w))) (print Finding_applied w))"
      let ?run = "apply_revisions_to_database exec fs (pending fs w) rtp
                    (no_outstanding_predecessors rtp) ?w3"
      have eq: "apply_migrations exec fs w = ?run"
        using ne Inr False by (simp add: apply_migrations_unfold)
      obtain w' where run: "?run = (Some e, w')"
        using err unfolding eq by (cases ?run) simp
      from apply_revisions_to_database_outcome [OF run] obtain committed rest where
        o: "concat (drop (length (rounds ?w3)) (rounds w')) = committed @ rest"
           "rest \<noteq> []"
           "fst (apply_revision exec fs (pending fs w) (hd rest) (rtp, w')) = Some e"
        by blast
      from o(2) have "hd rest \<in> set (committed @ rest)" by simp
      then have "hd rest \<in> set (concat (drop (length (rounds ?w3)) (rounds w')))"
        unfolding o(1) .
      with rounds_within_keys [OF no_outstanding_predecessors_keys run]
      have "hd rest \<in> set (dict_keys rtp)" by blast
      then have k: "hd rest \<in> set (dict_keys (pending fs w))"
        unfolding read_revisions_pending(1) [OF Inr] .
      have "snd (apply_migrations exec fs w) = w'"
        unfolding eq run by simp
      with o(3) k Inr show ?thesis by blast
    qed
  qed
qed

theorem applied_absent_from_catalog_is_skipped_witness:
  "''Z'' \<in> set (revision_table (world_with [''Z''] [])) \<and>
   ''Z'' \<notin> set (dict_keys (load_revision_to_file fs_single)) \<and>
   fst (apply_migrations (fail_on ''create table a ();'') fs_single (world_with [''Z''] [])) =
     Some (ScriptError ''create table a ();'') \<and>
   (\<exists>revision_to_predecessors.
      read_revisions fs_single [''Z''] (pending fs_single (world_with [''Z''] [])) [] =
        Inr revision_to_predecessors \<and>
      (\<exists>revision \<in> set (dict_keys (pending fs_single (world_with [''Z''] []))).
         fst (apply_revision (fail_on ''create table a ();'') fs_single
                (pending fs_single (world_with [''Z''] [])) revision
                (revision_to_predecessors,
                 snd (apply_migrations (fail_on ''create table a ();'') fs_single
                        (world_with [''Z''] [])))) =
           Some (ScriptError ''create table a ();'')))"
proof -
  let ?w = "world_with [''Z''] [] :: string list world"
  let ?exec = "fail_on ''create table a ();''"
  have z: "revision_table ?w = [''Z'']"
    by (simp add: world_with_def)
  have absent: "''Z'' \<notin> set (dict_keys (load_revision_to_file fs_single))"
    by code_simp
  have err: "fst (apply_migrations ?exec fs_single ?w) = Some (ScriptError ''create table a ();'')"
    by code_simp
  from applied_absent_from_catalog_is_skipped [of fs_single ?w ?exec] err
  have "(\<exists>(revision, path) \<in> set (pending fs_single ?w).
         read_file fs_single path = None \<and>
         ScriptError ''create table a ();'' = FileNotFoundError path) \<or>
      (\<exists>revision_to_predecessors.
         read_revisions fs_single (revision_table ?w) (pending fs_single ?w) [] =
           Inr revision_to_predecessors \<and>
         (no_outstanding_predecessors revision_to_predecessors = [] \<and>
          ScriptError ''create table a ();'' = SystemExit 1 \<or>
          (\<exists>revision \<in> set (dict_keys (pending fs_single ?w)).
             fst (apply_revision ?exec fs_single (pending fs_single ?w) revision
                    (revision_to_predecessors, snd (apply_migrations ?exec fs_single ?w))) =
               Some (ScriptError ''create table a ();''))))"
    by blast
  then have "\<exists>revision_to_predecessors.
         read_revisions fs_single (revision_table ?w) (pending fs_single ?w) [] =
           Inr revision_to_predecessors \<and>
         (\<exists>revision \<in> set (dict_keys (pending fs_single ?w)).
             fst (apply_revision ?exec fs_single (pending fs_single ?w) revision
                    (revision_to_predecessors, snd (apply_migrations ?exec fs_single ?w))) =
               Some (ScriptError ''create table a ();''))"
    by (elim disjE bexE exE conjE) (simp_all add: split_def, blast)
  with absent err show ?thesis
    unfolding z by simp
qed

text \<open>
  C7 as stated fails: the ledger holds \<^verbatim>\<open>Z\<close>, the only file on disk is \<^verbatim>\<open>A.sql\<close>, and the
  run applies \<^verbatim>\<open>A\<close> and returns normally.
\<close>

theorem applied_absent_counterexample:
  "''Z'' \<in> set (revision_table (world_with [''Z''] [])) \<and>
   ''Z'' \<notin> set (dict_keys (load_revision_to_file fs_single)) \<and>
   apply_migrations log_exec fs_single (world_with [''Z''] []) =
     (None, \<lparr>revision_table = [''Z'', ''A''], dependent_revision_table = [],
             store = [''create table a ();''],
             stdout = [Finding_applied, Found_applied 1, Found_to_apply 1, Applying ''A'', Done],
             journal = [([''Z'', ''A''], [])], rounds = [[''A'']]\<rparr>)"
  by code_simp

section \<open>Claim C4: apply, then roll everything back\<close>

lemma commits_print:
  "commits exec fs rtf rtp cs (print m w) w' = commits exec fs rtf rtp cs w w'"
  by (simp add: commits_def print_def)

lemma apply_migrations_commits:
  assumes "apply_migrations exec fs w = (None, w1)"
  shows "\<exists>cs rtp. commits exec fs (pending fs w) rtp cs w w1"
proof (cases "pending fs w = []")
  case True
  with assms have "w1 = print All_applied (print (Found_applied (length (revision_table w)))
                    (print Finding_applied w))"
    by (simp add: apply_migrations_unfold)
  then have "commits exec fs (pending fs w) [] [] w w1"
    by (intro commits_nil) (simp_all add: print_def)
  then show ?thesis by blast
next
  case False
  let ?w3 = "print (Found_to_apply (length (pending fs w)))
               (print (Found_applied (length (revision_table w))) (print Finding_applied w))"
  from assms False obtain rtp where
    r: "read_revisions fs (revision_table w) (pending fs w) [] = Inr rtp"
    by (cases "read_revisions fs (revision_table w) (pending fs w) []")
       (auto simp: apply_migrations_unfold)
  from assms False r have
    "apply_revisions_to_database exec fs (pending fs w) rtp (no_outstanding_predecessors rtp) ?w3 =
       (None, w1)"
    by (auto simp: apply_migrations_unfold split: if_splits)
  from apply_revisions_to_database_commits [OF this] obtain cs rest where
    "None = (None :: error option) \<longrightarrow> rest = []" and
    "commits exec fs (pending fs w) rtp cs ?w3 w1"
    by blast
  then have "commits exec fs (pending fs w) rtp cs w w1"
    unfolding commits_print by simp
  then show ?thesis by blast
qed

text \<open>
  C4. Start from tables whose foreign keys hold, let \<^verbatim>\<open>apply_migrations\<close> return normally,
  and roll back the revisions it has added, as targets in any order (and as often as one
  likes). If every rollback returns normally, the two tables are again as they were
  before the apply, row for row. The predecessor graph need not be acyclic for this.
\<close>

theorem apply_then_rollback_restores_ledger:
  assumes fk: "foreign_keys_hold (ledger_of w)"
    and ap: "apply_migrations exec fs w = (None, w1)"
    and tg: "set targets = set (revision_table w1) - set (revision_table w)"
    and rb: "rollback_all fuel exec fs targets w1 = Some (None, w2)"
  shows "revision_table w2 = revision_table w \<and>
         dependent_revision_table w2 = dependent_revision_table w"
proof -
  from apply_migrations_commits [OF ap] obtain cs rtp where
    c: "commits exec fs (pending fs w) rtp cs w w1" by blast
  let ?new = "concat (map (\<lambda>revision. map (\<lambda>parent. (parent, revision)) (declared_of rtp revision)) cs)"
  from c have
    r1: "revision_table w1 = revision_table w @ cs" and
    dj: "set cs \<inter> set (revision_table w) = {}" and
    e1: "dependent_revision_table w1 = dependent_revision_table w @ ?new"
    unfolding commits_def by blast+
  have new_dep: "d \<in> set cs" if "(p, d) \<in> set ?new" for p d
    using that by auto
  have old: "p \<in> set (revision_table w) \<and> d \<in> set (revision_table w)"
    if "(p, d) \<in> set (dependent_revision_table w)" for p d
    using fk that by (auto simp: foreign_keys_hold_def ledger_of_def)
  have tcs: "set targets = set cs"
    using tg dj unfolding r1 by auto
  let ?E = "set (dependent_revision_table w1)"
  have step: "d \<in> set cs" if "p \<in> set cs" "(p, d) \<in> ?E" for p d
  proof -
    from that(2) have "(p, d) \<in> set (dependent_revision_table w) \<or> (p, d) \<in> set ?new"
      unfolding e1 by simp
    then show ?thesis
    proof
      assume "(p, d) \<in> set (dependent_revision_table w)"
      with old have "p \<in> set (revision_table w)" by blast
      with that(1) dj show ?thesis by blast
    next
      assume "(p, d) \<in> set ?new"
      then show ?thesis by (rule new_dep)
    qed
  qed
  have closed: "d \<in> set cs" if "(p, d) \<in> ?E\<^sup>*" "p \<in> set cs" for p d
    using that by (induction rule: rtrancl_induct) (auto intro: step)
  have "\<exists>undone. rolled_back undone w1 w2 \<and> set undone \<subseteq> ?E\<^sup>* `` set targets \<and>
          ((None :: error option) = None \<longrightarrow> set targets \<subseteq> set undone)"
  proof (rule for_each_fuel_rolled_back)
    show "for_each_fuel (remove_migration fuel exec fs) targets w1 = Some (None, w2)"
      using rb by (simp add: rollback_all_def)
  next
    fix d and wa wb :: "'a world" and out
    assume "remove_migration fuel exec fs d wa = Some (out, wb)"
    from remove_migration_rolled_back [OF this]
    show "\<exists>undone. rolled_back undone wa wb \<and>
            set undone \<subseteq> (set (dependent_revision_table wa))\<^sup>* `` {d} \<and>
            (out = None \<longrightarrow> d \<in> set undone)"
      by blast
  qed
  then obtain undone where
    u: "rolled_back undone w1 w2" "set undone \<subseteq> ?E\<^sup>* `` set targets" "set targets \<subseteq> set undone"
    by blast
  have ucs: "set undone = set cs"
  proof
    show "set undone \<subseteq> set cs"
      using u(2) closed unfolding tcs by blast
    show "set cs \<subseteq> set undone"
      using u(3) unfolding tcs .
  qed
  have "revision_table w2 = filter (\<lambda>r. r \<notin> set cs) (revision_table w @ cs)"
    using rolled_back_revision [OF u(1)] unfolding ucs r1 .
  also have "\<dots> = revision_table w"
    using dj by (auto simp: filter_id_conv filter_empty_conv)
  finally have rev: "revision_table w2 = revision_table w" .
  have "dependent_revision_table w2 =
          filter (\<lambda>(p, d). d \<notin> set cs) (dependent_revision_table w @ ?new)"
    using rolled_back_dependent [OF u(1)] unfolding ucs e1 .
  also have "\<dots> = dependent_revision_table w"
  proof -
    have "filter (\<lambda>(p, d). d \<notin> set cs) (dependent_revision_table w) = dependent_revision_table w"
      using old dj by (auto simp: filter_id_conv)
    moreover have "filter (\<lambda>(p, d). d \<notin> set cs) ?new = []"
      using new_dep by (auto simp: filter_empty_conv simp del: set_concat)
    ultimately show ?thesis by simp
  qed
  finally show ?thesis using rev by simp
qed

theorem apply_then_rollback_restores_ledger_witness:
  "\<exists>w1 w2. apply_migrations log_exec fs_diamond (world_with [''Z''] []) = (None, w1) \<and>
     revision_table w1 = [''Z'', ''A'', ''B'', ''C'', ''D''] \<and>
     rollback_all 3 log_exec fs_diamond [''B'', ''D'', ''A'', ''C''] w1 = Some (None, w2) \<and>
     revision_table w2 = [''Z''] \<and> dependent_revision_table w2 = []"
proof -
  obtain w1 where ap: "apply_migrations log_exec fs_diamond (world_with [''Z''] []) = (None, w1)"
    and w1: "w1 = snd (apply_migrations log_exec fs_diamond (world_with [''Z''] []))"
  proof
    show "apply_migrations log_exec fs_diamond (world_with [''Z''] []) =
            (None, snd (apply_migrations log_exec fs_diamond (world_with [''Z''] [])))"
      by code_simp
    show "snd (apply_migrations log_exec fs_diamond (world_with [''Z''] [])) =
          snd (apply_migrations log_exec fs_diamond (world_with [''Z''] []))" ..
  qed
  have r1: "revision_table w1 = [''Z'', ''A'', ''B'', ''C'', ''D'']"
    unfolding w1 by code_simp
  obtain w2 where rb: "rollback_all 3 log_exec fs_diamond [''B'', ''D'', ''A'', ''C''] w1 = Some (None, w2)"
  proof
    show "rollback_all 3 log_exec fs_diamond [''B'', ''D'', ''A'', ''C''] w1 =
      Some (None, snd (the (rollback_all 3 log_exec fs_diamond [''B'', ''D'', ''A'', ''C''] w1)))"
      unfolding w1 by code_simp
  qed
  have fk: "foreign_keys_hold (ledger_of (world_with [''Z''] []))"
    by code_simp
  have tg: "set [''B'', ''D'', ''A'', ''C''] =
            set (revision_table w1) - set (revision_table (world_with [''Z''] []))"
    unfolding r1 by (auto simp: world_with_def)
  from apply_then_rollback_restores_ledger [OF fk ap tg rb]
  have "revision_table w2 = [''Z''] \<and> dependent_revision_table w2 = []"
    by (simp add: world_with_def)
  with ap r1 rb show ?thesis by blast
qed

section \<open>Migrations that can never become eligible\<close>

lemma dict_keys_retire: "set (dict_keys (retire c rtp)) = set (dict_keys rtp) - {c}"
  by (force simp: retire_def dict_del_def dict_keys_def)

lemma count_list_remove1:
  "count_list (remove1 c xs) x = (if x = c \<and> c \<in> set xs then count_list xs x - 1 else count_list xs x)"
  by (induction xs) auto

lemma count_list_pos_mem: "0 < count_list xs x \<longleftrightarrow> x \<in> set xs"
  by (induction xs) auto

lemma blocked_not_eligible:
  assumes "blocked rtp S"
  shows "set (no_outstanding_predecessors rtp) \<inter> S = {}"
proof -
  have False if "s \<in> S" "(s, declared, []) \<in> set rtp" for s declared
    using assms that unfolding blocked_def by fastforce
  then show ?thesis
    by (auto simp: no_outstanding_predecessors_def)
qed

lemma blocked_retire:
  assumes b: "blocked rtp S" and c: "c \<notin> S" "c \<in> set (dict_keys rtp)"
  shows "blocked (retire c rtp) S"
  unfolding blocked_def
proof (intro ballI conjI allI impI)
  fix s
  assume s: "s \<in> S"
  with b have k: "s \<in> set (dict_keys rtp)" unfolding blocked_def by blast
  with s c show "s \<in> set (dict_keys (retire c rtp))"
    unfolding dict_keys_retire by blast
  fix declared outstanding'
  assume "(s, declared, outstanding') \<in> set (retire c rtp)"
  then obtain outstanding where
    e: "(s, declared, outstanding) \<in> set rtp" and o: "outstanding' = remove1 c outstanding"
    by (auto simp: retire_def dict_del_def)
  from b s e obtain x where
    x: "x \<in> set outstanding"
       "x \<in> S \<or> x \<notin> set (dict_keys rtp) \<or> 2 \<le> count_list outstanding x"
    unfolding blocked_def by blast
  show "\<exists>x \<in> set outstanding'.
          x \<in> S \<or> x \<notin> set (dict_keys (retire c rtp)) \<or> 2 \<le> count_list outstanding' x"
  proof (cases "x = c")
    case False
    with x have "x \<in> set outstanding'"
      unfolding o by simp
    moreover from False x(2) have
      "x \<in> S \<or> x \<notin> set (dict_keys (retire c rtp)) \<or> 2 \<le> count_list outstanding' x"
      unfolding o dict_keys_retire by (auto simp: count_list_remove1)
    ultimately show ?thesis by blast
  next
    case True
    with x(2) c have two: "2 \<le> count_list outstanding c" by blast
    then have "0 < count_list outstanding' c"
      unfolding o by (simp add: count_list_remove1)
    then have "c \<in> set outstanding'"
      by (simp add: count_list_pos_mem)
    moreover have "c \<notin> set (dict_keys (retire c rtp))"
      unfolding dict_keys_retire by simp
    ultimately show ?thesis by blast
  qed
qed

lemma blocked_fold_retire:
  assumes "blocked rtp S" and "set cs \<inter> S = {}" and "distinct cs"
    and "set cs \<subseteq> set (dict_keys rtp)"
  shows "blocked (fold retire cs rtp) S"
  using assms
proof (induction cs arbitrary: rtp)
  case Nil
  then show ?case by simp
next
  case (Cons c cs)
  have "blocked (retire c rtp) S"
    using Cons.prems by (intro blocked_retire) auto
  moreover have "set cs \<subseteq> set (dict_keys (retire c rtp))"
    using Cons.prems unfolding dict_keys_retire by auto
  ultimately have "blocked (fold retire cs (retire c rtp)) S"
    using Cons.prems by (intro Cons.IH) auto
  then show ?case by simp
qed

lemma commits_keys:
  assumes "commits exec fs rtf rtp cs w w'"
  shows "set cs \<subseteq> set (dict_keys rtp)" and "distinct cs"
    and "revision_table w' = revision_table w @ cs"
proof -
  from assms have l: "list_all (\<lambda>revision. distinct (declared_of rtp revision) \<and>
                                 map_of rtp revision \<noteq> None) cs"
    and d: "distinct cs" and r: "revision_table w' = revision_table w @ cs"
    unfolding commits_def by blast+
  show "set cs \<subseteq> set (dict_keys rtp)"
  proof
    fix c assume "c \<in> set cs"
    with l have "map_of rtp c \<noteq> None" unfolding list_all_iff by blast
    then show "c \<in> set (dict_keys rtp)"
      by (auto simp: dict_keys_def dest: map_of_SomeD intro: rev_image_eqI)
  qed
  show "distinct cs" by (rule d)
  show "revision_table w' = revision_table w @ cs" by (rule r)
qed

text \<open>A blocked set stays out of the tables, the rounds and the output.\<close>

lemma blocked_never_applied:
  assumes b: "blocked rtp0 S" and f: "set frontier0 \<inter> S = {}"
    and run: "apply_revisions_to_database exec fs rtf rtp0 frontier0 w0 = (out, w')"
  shows "\<exists>new_rounds new_rows.
           rounds w' = rounds w0 @ new_rounds \<and> set (concat new_rounds) \<inter> S = {} \<and>
           revision_table w' = revision_table w0 @ new_rows \<and> set new_rows \<inter> S = {} \<and>
           (\<forall>m \<in> set (stdout w'). m \<in> set (stdout w0) \<or> m = Done \<or> (\<exists>r. r \<notin> S \<and> m = Applying r))"
proof -
  let ?Q = "\<lambda>(out :: error option) w. \<exists>new_rounds new_rows.
           rounds w = rounds w0 @ new_rounds \<and> set (concat new_rounds) \<inter> S = {} \<and>
           revision_table w = revision_table w0 @ new_rows \<and> set new_rows \<inter> S = {} \<and>
           (\<forall>m \<in> set (stdout w). m \<in> set (stdout w0) \<or> m = Done \<or> (\<exists>r. r \<notin> S \<and> m = Applying r))"
  let ?I = "\<lambda>rtp frontier w. blocked rtp S \<and> set frontier \<inter> S = {} \<and> ?Q None w"
  have "?Q (fst (apply_revisions_to_database exec fs rtf rtp0 frontier0 w0))
           (snd (apply_revisions_to_database exec fs rtf rtp0 frontier0 w0))"
  proof (rule apply_loop_rule [where I = ?I and Q = ?Q])
    have "rounds w0 = rounds w0 @ [] \<and> set (concat []) \<inter> S = {} \<and>
          revision_table w0 = revision_table w0 @ [] \<and> set [] \<inter> S = {} \<and>
          (\<forall>m \<in> set (stdout w0). m \<in> set (stdout w0) \<or> m = Done \<or> (\<exists>r. r \<notin> S \<and> m = Applying r))"
      by simp
    then have "?Q None w0" by blast
    with b f show "?I rtp0 frontier0 w0" by blast
  next
    fix rtp frontier w o1 rtp1 w1
    assume i: "?I rtp frontier w"
      and p: "for_each (apply_revision exec fs rtf) frontier
                (rtp, w\<lparr>rounds := rounds w @ [frontier]\<rparr>) = (o1, rtp1, w1)"
    from i obtain new_rounds new_rows where
      bl: "blocked rtp S" and fr: "set frontier \<inter> S = {}" and
      q: "rounds w = rounds w0 @ new_rounds" "set (concat new_rounds) \<inter> S = {}"
         "revision_table w = revision_table w0 @ new_rows" "set new_rows \<inter> S = {}"
         "\<forall>m \<in> set (stdout w). m \<in> set (stdout w0) \<or> m = Done \<or> (\<exists>r. r \<notin> S \<and> m = Applying r)"
      by blast
    from pass_commits [OF p] obtain committed rest where
      pc: "frontier = committed @ rest"
          "commits exec fs rtf rtp committed (w\<lparr>rounds := rounds w @ [frontier]\<rparr>) w1"
          "rtp1 = fold retire committed rtp"
          "rounds w1 = rounds (w\<lparr>rounds := rounds w @ [frontier]\<rparr>)"
          "\<forall>m \<in> set (stdout w1). m \<in> set (stdout (w\<lparr>rounds := rounds w @ [frontier]\<rparr>)) \<or>
              m = Done \<or> (\<exists>r \<in> set frontier. m = Applying r)"
      by blast
    note ck = commits_keys [OF pc(2)]
    have cS: "set committed \<inter> S = {}"
      using fr pc(1) by auto
    have q1: "?Q o1 w1"
    proof (intro exI conjI)
      show "rounds w1 = rounds w0 @ (new_rounds @ [frontier])"
        using pc(4) q(1) by simp
      show "set (concat (new_rounds @ [frontier])) \<inter> S = {}"
        using q(2) fr by auto
      show "revision_table w1 = revision_table w0 @ (new_rows @ committed)"
        using ck(3) q(3) by simp
      show "set (new_rows @ committed) \<inter> S = {}"
        using q(4) cS by auto
      show "\<forall>m \<in> set (stdout w1). m \<in> set (stdout w0) \<or> m = Done \<or> (\<exists>r. r \<notin> S \<and> m = Applying r)"
      proof
        fix m assume "m \<in> set (stdout w1)"
        with pc(5) have "m \<in> set (stdout w) \<or> m = Done \<or> (\<exists>r \<in> set frontier. m = Applying r)"
          by simp
        then show "m \<in> set (stdout w0) \<or> m = Done \<or> (\<exists>r. r \<notin> S \<and> m = Applying r)"
          using q(5) fr by blast
      qed
    qed
    have b1: "blocked rtp1 S"
      unfolding pc(3) using bl cS ck(2,1) by (rule blocked_fold_retire)
    have i1: "?I rtp1 (no_outstanding_predecessors rtp1) w1" if "o1 = None"
      using b1 blocked_not_eligible [OF b1] q1 unfolding that by blast
    show "if o1 \<noteq> None \<or> no_outstanding_predecessors rtp1 = [] then ?Q o1 w1
          else ?I rtp1 (no_outstanding_predecessors rtp1) w1"
    proof (cases "o1 \<noteq> None \<or> no_outstanding_predecessors rtp1 = []")
      case True
      show ?thesis unfolding if_P [OF True] by (rule q1)
    next
      case False
      then have "o1 = None" by simp
      then show ?thesis unfolding if_not_P [OF False] by (rule i1)
    qed
  qed
  then show ?thesis
    unfolding run fst_conv snd_conv .
qed

section \<open>Claim C10: the same predecessor marker twice\<close>

lemma count_list_filter:
  "P x \<Longrightarrow> count_list (filter P xs) x = count_list xs x"
  by (induction xs) auto

lemma depends_on_keys:
  assumes "(M, declared, outstanding) \<in> set rtp" and "r \<in> depends_on rtp M"
  shows "r \<in> set (dict_keys rtp)"
  using assms(2,1) by (induction rule: depends_on.induct) (force simp: dict_keys_def)+

lemma repeated_marker_blocked:
  assumes rd: "read_revisions fs (revision_table w) (pending fs w) [] = Inr rtp"
    and m: "(M, declared, outstanding) \<in> set rtp"
    and dup: "2 \<le> count_list declared P" and p: "P \<notin> set (revision_table w)"
  shows "blocked rtp (depends_on rtp M)"
  unfolding blocked_def
proof (intro ballI conjI allI impI)
  note facts = read_revisions_pending [OF rd]
  have dist: "distinct (map fst rtp)"
    using facts(2) by (simp add: dict_keys_def)
  have out: "o' = filter (\<lambda>p. p \<notin> set (revision_table w)) d'" if "(r, d', o') \<in> set rtp" for r d' o'
    using facts(3) that by auto
  have fresh: "r \<notin> set (revision_table w)" if "r \<in> set (dict_keys rtp)" for r
    using that pending_not_applied [of fs w] unfolding facts(1) by blast
  fix s
  assume s: "s \<in> depends_on rtp M"
  show "s \<in> set (dict_keys rtp)"
    using m s by (rule depends_on_keys)
  fix d' o'
  assume e: "(s, d', o') \<in> set rtp"
  from s show "\<exists>x \<in> set o'. x \<in> depends_on rtp M \<or> x \<notin> set (dict_keys rtp) \<or> 2 \<le> count_list o' x"
  proof (cases rule: depends_on.cases)
    case self
    with e m dist have "(d', o') = (declared, outstanding)"
      by (auto dest: eq_key_imp_eq_value)
    then have d: "d' = declared" by simp
    have o: "o' = filter (\<lambda>p. p \<notin> set (revision_table w)) declared"
      using out [OF e] unfolding d .
    have c: "count_list o' P = count_list declared P"
      unfolding o using p by (intro count_list_filter)
    with dup have two: "2 \<le> count_list o' P" by simp
    then have "0 < count_list o' P" by simp
    then have "P \<in> set o'" by (simp add: count_list_pos_mem)
    with two show ?thesis by blast
  next
    case (step x d2 o2)
    with e dist have "(d', o') = (d2, o2)"
      by (auto dest: eq_key_imp_eq_value)
    with step have x: "x \<in> set d'" by simp
    have "x \<in> set (dict_keys rtp)"
      using m step(1) by (rule depends_on_keys)
    then have "x \<notin> set (revision_table w)" by (rule fresh)
    with x have "x \<in> set o'"
      unfolding out [OF e] by simp
    with step(1) show ?thesis by blast
  qed
qed

text \<open>
  C10, as the code has it. Let the forward script of a pending migration \<open>M\<close> hold the
  marker line of a revision \<open>P\<close> that is not applied at least twice. Then line 225 takes
  only one \<open>P\<close> off the outstanding list of \<open>M\<close>, and \<open>M\<close> never becomes eligible:
  whatever the outcome of the run, \<open>M\<close> and everything that depends on it get no row in
  \<open>revision\<close>, are in no round, and no line is printed for them. The run leaves through
  the exit of line 176 exactly when no pending migration is eligible at the start;
  otherwise it returns normally unless a migration of some round raises.
\<close>

theorem repeated_marker_never_applied:
  assumes rd: "read_revisions fs (revision_table w) (pending fs w) [] = Inr revision_to_predecessors"
    and m: "(M, declared, outstanding) \<in> set revision_to_predecessors"
    and dup: "2 \<le> count_list declared P" and p: "P \<notin> set (revision_table w)"
    and run: "apply_migrations exec fs w = (out, w')"
  shows "(\<forall>r \<in> depends_on revision_to_predecessors M.
            r \<notin> set (revision_table w') \<and>
            r \<notin> set (concat (drop (length (rounds w)) (rounds w'))) \<and>
            (Applying r \<in> set (stdout w') \<longrightarrow> Applying r \<in> set (stdout w))) \<and>
         (no_outstanding_predecessors revision_to_predecessors = [] \<longrightarrow> out = Some (SystemExit 1)) \<and>
         (no_outstanding_predecessors revision_to_predecessors \<noteq> [] \<longrightarrow>
            (\<forall>n. out \<noteq> Some (SystemExit n)))"
proof -
  let ?S = "depends_on revision_to_predecessors M"
  let ?w3 = "print (Found_to_apply (length (pending fs w)))
               (print (Found_applied (length (revision_table w))) (print Finding_applied w))"
  note facts = read_revisions_pending [OF rd]
  have bl: "blocked revision_to_predecessors ?S"
    using rd m dup p by (rule repeated_marker_blocked)
  have fresh: "r \<notin> set (revision_table w)" if "r \<in> ?S" for r
  proof -
    from m that have "r \<in> set (dict_keys revision_to_predecessors)" by (rule depends_on_keys)
    then show ?thesis
      using pending_not_applied [of fs w] unfolding facts(1) by blast
  qed
  have ne: "pending fs w \<noteq> []"
  proof
    assume "pending fs w = []"
    with facts(1) have "revision_to_predecessors = []" by (simp add: dict_keys_def)
    with m show False by simp
  qed
  show ?thesis
  proof (cases "no_outstanding_predecessors revision_to_predecessors = []")
    case True
    with run rd ne have r: "out = Some (SystemExit 1)" "w' = print Invalid_dependencies ?w3"
      by (simp_all add: apply_migrations_unfold)
    have "revision_table w' = revision_table w" "rounds w' = rounds w"
      "stdout w' = stdout w @ [Finding_applied, Found_applied (length (revision_table w)),
         Found_to_apply (length (pending fs w)), Invalid_dependencies]"
      unfolding r(2) by (simp_all add: print_def)
    with True r(1) fresh show ?thesis by auto
  next
    case False
    with run rd ne have loop:
      "apply_revisions_to_database exec fs (pending fs w) revision_to_predecessors
         (no_outstanding_predecessors revision_to_predecessors) ?w3 = (out, w')"
      by (simp add: apply_migrations_unfold)
    from blocked_never_applied [OF bl blocked_not_eligible [OF bl] loop]
    obtain new_rounds new_rows where
      n: "rounds w' = rounds ?w3 @ new_rounds" "set (concat new_rounds) \<inter> ?S = {}"
         "revision_table w' = revision_table ?w3 @ new_rows" "set new_rows \<inter> ?S = {}"
         "\<forall>m \<in> set (stdout w'). m \<in> set (stdout ?w3) \<or> m = Done \<or> (\<exists>r. r \<notin> ?S \<and> m = Applying r)"
      by blast
    have w3: "rounds ?w3 = rounds w" "revision_table ?w3 = revision_table w"
      "stdout ?w3 = stdout w @ [Finding_applied, Found_applied (length (revision_table w)),
         Found_to_apply (length (pending fs w))]"
      by (simp_all add: print_def)
    have a: "r \<notin> set (revision_table w')" if "r \<in> ?S" for r
      using n(3,4) fresh [OF that] that unfolding w3 by auto
    have b: "r \<notin> set (concat (drop (length (rounds w)) (rounds w')))" if "r \<in> ?S" for r
      using n(1,2) that unfolding w3 by auto
    have c: "Applying r \<in> set (stdout w') \<longrightarrow> Applying r \<in> set (stdout w)" if "r \<in> ?S" for r
    proof
      assume "Applying r \<in> set (stdout w')"
      with n(5) have "Applying r \<in> set (stdout ?w3) \<or> Applying r = Done \<or>
          (\<exists>r'. r' \<notin> ?S \<and> Applying r = Applying r')"
        by blast
      with that have "Applying r \<in> set (stdout ?w3)" by auto
      then show "Applying r \<in> set (stdout w)" unfolding w3 by simp
    qed
    have d: "\<forall>n. out \<noteq> Some (SystemExit n)"
      using apply_revisions_to_database_no_exit
        [of exec fs "pending fs w" revision_to_predecessors
            "no_outstanding_predecessors revision_to_predecessors" ?w3]
      unfolding loop by simp
    from False a b c d show ?thesis by blast
  qed
qed

theorem repeated_marker_never_applied_witness:
  "apply_migrations log_exec fs_repeated (world_with [] []) =
     (None, \<lparr>revision_table = [''A''], dependent_revision_table = [],
             store = [''create table a ();''],
             stdout = [Finding_applied, Found_applied 0, Found_to_apply 3, Applying ''A'', Done],
             journal = [([''A''], [])], rounds = [[''A'']]\<rparr>) \<and>
   ''C'' \<in> depends_on [(''A'', [], []), (''B'', [''A'', ''A''], [''A'', ''A'']), (''C'', [''B''], [''B''])] ''B'' \<and>
   ''B'' \<notin> set [''A''] \<and> ''C'' \<notin> set [''A'']"
proof -
  let ?rtp = "[(''A'', [], []), (''B'', [''A'', ''A''], [''A'', ''A'']), (''C'', [''B''], [''B''])]"
  let ?w' = "\<lparr>revision_table = [''A''], dependent_revision_table = [],
             store = [''create table a ();''],
             stdout = [Finding_applied, Found_applied 0, Found_to_apply 3, Applying ''A'', Done],
             journal = [([''A''], [])], rounds = [[''A'']]\<rparr> :: string list world"
  have rd: "read_revisions fs_repeated (revision_table (world_with [] []))
              (pending fs_repeated (world_with [] [])) [] = Inr ?rtp"
    by code_simp
  have m: "(''B'', [''A'', ''A''], [''A'', ''A'']) \<in> set ?rtp" by simp
  have dup: "2 \<le> count_list [''A'', ''A''] ''A''" by simp
  have p: "''A'' \<notin> set (revision_table (world_with [] []))" by (simp add: world_with_def)
  have run: "apply_migrations log_exec fs_repeated (world_with [] []) = (None, ?w')"
    by code_simp
  have b: "''B'' \<in> depends_on ?rtp ''B''" by (rule depends_on.self)
  have c: "''C'' \<in> depends_on ?rtp ''B''"
    by (rule depends_on.step [OF b, of "''C''" "[''B'']" "[''B'']"]) simp_all
  from repeated_marker_never_applied [OF rd m dup p run] b c
  have "''B'' \<notin> set (revision_table ?w')" "''C'' \<notin> set (revision_table ?w')"
    by blast+
  then have "''B'' \<notin> set [''A'']" "''C'' \<notin> set [''A'']" by simp_all
  with run c show ?thesis by blast
qed

text \<open>
  C10 as stated fails: \<^verbatim>\<open>M\<close> names the pending \<^verbatim>\<open>P\<close> twice and \<^verbatim>\<open>P\<close> names \<^verbatim>\<open>M\<close>; no
  migration is eligible, and the run does not report success but leaves with exit
  status 1.
\<close>

theorem repeated_marker_counterexample:
  "read_revisions fs_repeated_cycle [] (pending fs_repeated_cycle (world_with [] [])) [] =
     Inr [(''M'', [''P'', ''P''], [''P'', ''P'']), (''P'', [''M''], [''M''])] \<and>
   apply_migrations log_exec fs_repeated_cycle (world_with [] []) =
     (Some (SystemExit 1),
      \<lparr>revision_table = [], dependent_revision_table = [], store = [],
       stdout = [Finding_applied, Found_applied 0, Found_to_apply 2, Invalid_dependencies],
       journal = [], rounds = []\<rparr>)"
  by code_simp

section \<open>The rounds of a catalog without repeated markers\<close>

lemma dict_keys_retire_list: "dict_keys (retire c rtp) = filter (\<lambda>k. k \<noteq> c) (dict_keys rtp)"
  by (induction rtp) (auto simp: retire_def dict_del_def dict_keys_def)

lemma retire_entry:
  "(r, d, o1) \<in> set (retire c rtp) \<Longrightarrow> r \<noteq> c \<and> (\<exists>out. (r, d, out) \<in> set rtp \<and> o1 = remove1 c out)"
  by (auto simp: retire_def dict_del_def)

lemma tracks_retire:
  assumes t: "tracks rtp0 rtp gone"
  shows "tracks rtp0 (retire c rtp) (gone @ [c])"
  unfolding tracks_def
proof (intro conjI ballI)
  from t have d: "distinct (dict_keys rtp)"
    and k: "set (dict_keys rtp) = set (dict_keys rtp0) - set gone"
    and e: "\<And>r d out. (r, d, out) \<in> set rtp \<Longrightarrow>
              d = declared_of rtp0 r \<and> distinct out \<and>
              set out = {p \<in> set d. p \<in> set (dict_keys rtp)}"
    unfolding tracks_def by blast+
  show "distinct (dict_keys (retire c rtp))"
    unfolding dict_keys_retire_list using d by simp
  show "set (dict_keys (retire c rtp)) = set (dict_keys rtp0) - set (gone @ [c])"
    unfolding dict_keys_retire using k by auto
  fix x
  assume x: "x \<in> set (retire c rtp)"
  obtain r d o1 where xe: "x = (r, d, o1)" by (cases x)
  from retire_entry [OF x [unfolded xe]] obtain out where
    o: "(r, d, out) \<in> set rtp" "o1 = remove1 c out"
    by blast
  note eo = e [OF o(1)]
  have "distinct o1" unfolding o(2) using eo by simp
  moreover have "set o1 = {p \<in> set d. p \<in> set (dict_keys (retire c rtp))}"
    unfolding o(2) dict_keys_retire using eo by auto
  ultimately show "case x of (r, d, out) \<Rightarrow>
      d = declared_of rtp0 r \<and> distinct out \<and>
      set out = {p \<in> set d. p \<in> set (dict_keys (retire c rtp))}"
    unfolding xe using eo by simp
qed

lemma tracks_fold_retire:
  "tracks rtp0 rtp gone \<Longrightarrow> tracks rtp0 (fold retire cs rtp) (gone @ cs)"
proof (induction cs arbitrary: rtp gone)
  case Nil
  then show ?case by simp
next
  case (Cons c cs)
  from Cons.prems have "tracks rtp0 (retire c rtp) (gone @ [c])" by (rule tracks_retire)
  from Cons.IH [OF this] show ?case by simp
qed

lemma rounds_in_orderD:
  "rounds_in_order rtp rs \<Longrightarrow> i < length rs \<Longrightarrow> r \<in> set (rs ! i) \<Longrightarrow>
   p \<in> set (declared_of rtp r) \<Longrightarrow> p \<in> set (dict_keys rtp) \<Longrightarrow> \<exists>j < i. p \<in> set (rs ! j)"
  unfolding rounds_in_order_def by simp

lemma rounds_in_order_snoc:
  assumes ord: "rounds_in_order rtp rs"
    and new: "\<And>r p. r \<in> set F \<Longrightarrow> p \<in> set (declared_of rtp r) \<Longrightarrow>
           p \<in> set (dict_keys rtp) \<Longrightarrow> p \<in> set (concat rs)"
  shows "rounds_in_order rtp (rs @ [F])"
  unfolding rounds_in_order_def
proof (intro allI impI ballI)
  fix i r p
  assume i: "i < length (rs @ [F])" and r: "r \<in> set ((rs @ [F]) ! i)"
    and p: "p \<in> set (declared_of rtp r)" "p \<in> set (dict_keys rtp)"
  show "\<exists>j < i. p \<in> set ((rs @ [F]) ! j)"
  proof (cases "i < length rs")
    case True
    with r have "r \<in> set (rs ! i)" by (simp add: nth_append)
    from rounds_in_orderD [OF ord True this p] obtain j where j: "j < i" "p \<in> set (rs ! j)"
      by (elim exE conjE)
    from j(1) True have "j < length rs" by simp
    then have "(rs @ [F]) ! j = rs ! j" by (simp add: nth_append)
    with j show ?thesis by (intro exI [of _ j]) simp
  next
    case False
    with i have il: "i = length rs" by simp
    with r have "r \<in> set F" by simp
    from new [OF this p] have "p \<in> \<Union> (set ` set rs)" by simp
    then obtain round where round: "round \<in> set rs" "p \<in> set round" by (elim UN_E)
    from round(1) obtain j where j: "j < length rs" "rs ! j = round"
      unfolding in_set_conv_nth by (elim exE conjE)
    from j(1) have "(rs @ [F]) ! j = rs ! j" by (simp add: nth_append)
    with j round(2) il show ?thesis by (intro exI [of _ j]) simp
  qed
qed

lemma no_outstanding_predecessors_mem:
  "r \<in> set (no_outstanding_predecessors rtp) \<longleftrightarrow> (\<exists>d. (r, d, []) \<in> set rtp)"
  by (auto simp: no_outstanding_predecessors_def)

lemma no_outstanding_predecessors_distinct:
  "distinct (dict_keys rtp) \<Longrightarrow> distinct (no_outstanding_predecessors rtp)"
proof -
  assume d: "distinct (dict_keys rtp)"
  have "no_outstanding_predecessors rtp =
        map fst (filter (\<lambda>(r, d, out). out = []) rtp)"
    by (induction rtp) (auto simp: no_outstanding_predecessors_def)
  then show ?thesis
    using d by (simp add: dict_keys_def distinct_map_filter)
qed

lemma declared_edges_mem:
  "(p, r) \<in> set (declared_edges rtp) \<longleftrightarrow> (\<exists>d out. (r, d, out) \<in> set rtp \<and> p \<in> set d)"
  unfolding declared_edges_def by force

text \<open>With an acyclic graph, a dictionary that is not empty has an entry with nothing outstanding.\<close>

lemma tracks_has_eligible:
  assumes t: "tracks rtp0 rtp gone" and d0: "distinct (dict_keys rtp0)"
    and ac: "acyclic (set (declared_edges rtp0))" and ne: "rtp \<noteq> []"
  shows "no_outstanding_predecessors rtp \<noteq> []"
proof -
  let ?G = "set (declared_edges rtp0)"
  let ?K = "set (dict_keys rtp)"
  from t have k: "?K = set (dict_keys rtp0) - set gone"
    and e: "\<And>r d out. (r, d, out) \<in> set rtp \<Longrightarrow>
              d = declared_of rtp0 r \<and> distinct out \<and> set out = {p \<in> set d. p \<in> ?K}"
    unfolding tracks_def by blast+
  have "wf ?G"
    using ac by (intro finite_acyclic_wf) simp
  moreover from ne obtain z where "z \<in> ?K"
    by (cases rtp) (auto simp: dict_keys_def)
  ultimately obtain m where m: "m \<in> ?K" "\<And>y. (y, m) \<in> ?G \<Longrightarrow> y \<notin> ?K"
    by (auto elim: wfE_min)
  from m(1) obtain d out where entry: "(m, d, out) \<in> set rtp"
    by (auto simp: dict_keys_def)
  note em = e [OF entry]
  from m(1) k have "m \<in> set (dict_keys rtp0)" by blast
  then obtain d0' out0 where e0: "(m, d0', out0) \<in> set rtp0"
    by (auto simp: dict_keys_def)
  with d0 have "map_of rtp0 m = Some (d0', out0)"
    by (simp add: dict_keys_def)
  then have "declared_of rtp0 m = d0'" by (simp add: declared_of_def)
  with em have dd: "d = d0'" by simp
  have "set out = {}"
  proof (rule ccontr)
    assume "set out \<noteq> {}"
    then obtain p where "p \<in> set out" by (cases out) auto
    with em have p: "p \<in> set d" "p \<in> ?K" by blast+
    from p(1) e0 have "(p, m) \<in> ?G"
      unfolding dd declared_edges_mem by blast
    from m(2) [OF this] p(2) show False by blast
  qed
  with entry have "(m, d, []) \<in> set rtp" by simp
  then have "m \<in> set (no_outstanding_predecessors rtp)"
    unfolding no_outstanding_predecessors_mem by blast
  then show ?thesis by auto
qed

lemma tracks_round:
  assumes t: "tracks rtp0 rtp (concat rs)" and ord: "rounds_in_order rtp0 rs"
    and di: "distinct (concat rs)" and sub: "set (concat rs) \<subseteq> set (dict_keys rtp0)"
  shows "tracks rtp0 (fold retire (no_outstanding_predecessors rtp) rtp)
           (concat (rs @ [no_outstanding_predecessors rtp]))"
    and "rounds_in_order rtp0 (rs @ [no_outstanding_predecessors rtp])"
    and "distinct (concat (rs @ [no_outstanding_predecessors rtp]))"
    and "set (concat (rs @ [no_outstanding_predecessors rtp])) \<subseteq> set (dict_keys rtp0)"
proof -
  let ?F = "no_outstanding_predecessors rtp"
  from t have d: "distinct (dict_keys rtp)"
    and k: "set (dict_keys rtp) = set (dict_keys rtp0) - set (concat rs)"
    and e: "\<And>r d out. (r, d, out) \<in> set rtp \<Longrightarrow>
              d = declared_of rtp0 r \<and> distinct out \<and>
              set out = {p \<in> set d. p \<in> set (dict_keys rtp)}"
    unfolding tracks_def by blast+
  have fk: "set ?F \<subseteq> set (dict_keys rtp)"
  proof
    fix r assume "r \<in> set ?F"
    then obtain dd where "(r, dd, []) \<in> set rtp"
      unfolding no_outstanding_predecessors_mem by (elim exE)
    then show "r \<in> set (dict_keys rtp)" by (force simp: dict_keys_def)
  qed
  from tracks_fold_retire [OF t, of ?F]
  show "tracks rtp0 (fold retire ?F rtp) (concat (rs @ [?F]))" by simp
  show "rounds_in_order rtp0 (rs @ [?F])"
  proof (rule rounds_in_order_snoc [OF ord])
    fix r p
    assume r: "r \<in> set ?F" and p: "p \<in> set (declared_of rtp0 r)" "p \<in> set (dict_keys rtp0)"
    from r obtain dd where entry: "(r, dd, []) \<in> set rtp"
      unfolding no_outstanding_predecessors_mem by (elim exE)
    from e [OF entry] have dd: "dd = declared_of rtp0 r"
      and none: "set [] = {p \<in> set dd. p \<in> set (dict_keys rtp)}" by simp_all
    from none p(1) have "p \<notin> set (dict_keys rtp)" unfolding dd by auto
    with p(2) show "p \<in> set (concat rs)" unfolding k by simp
  qed
  have "set (concat rs) \<inter> set ?F = {}" using fk unfolding k by blast
  with di no_outstanding_predecessors_distinct [OF d]
  show "distinct (concat (rs @ [?F]))" by simp
  from fk k sub show "set (concat (rs @ [?F])) \<subseteq> set (dict_keys rtp0)" by auto
qed

lemma apply_revisions_to_database_rounds:
  assumes t0: "tracks rtp0 rtp0 []"
    and ac: "acyclic (set (declared_edges rtp0))"
    and run: "apply_revisions_to_database exec fs rtf rtp0 (no_outstanding_predecessors rtp0) w0 =
                (None, w')"
  shows "\<exists>rs. rounds w' = rounds w0 @ rs \<and> distinct (concat rs) \<and>
              set (concat rs) = set (dict_keys rtp0) \<and> rounds_in_order rtp0 rs"
proof -
  from t0 have d0: "distinct (dict_keys rtp0)" unfolding tracks_def by blast
  let ?I = "\<lambda>rtp frontier (w :: 'a world).
     \<exists>rs. rounds w = rounds w0 @ rs \<and> tracks rtp0 rtp (concat rs) \<and>
          frontier = no_outstanding_predecessors rtp \<and> rounds_in_order rtp0 rs \<and>
          distinct (concat rs) \<and> set (concat rs) \<subseteq> set (dict_keys rtp0)"
  let ?Q = "\<lambda>(out :: error option) (w :: 'a world).
     out = None \<longrightarrow>
     (\<exists>rs. rounds w = rounds w0 @ rs \<and> distinct (concat rs) \<and>
           set (concat rs) = set (dict_keys rtp0) \<and> rounds_in_order rtp0 rs)"
  have init: "?I rtp0 (no_outstanding_predecessors rtp0) w0"
    using t0 by (intro exI [of _ "[]"]) (simp add: rounds_in_order_def)
  have pass: "if out \<noteq> None \<or> no_outstanding_predecessors rtp1 = [] then ?Q out w1
       else ?I rtp1 (no_outstanding_predecessors rtp1) w1"
    if i: "?I rtp frontier w"
      and p: "for_each (apply_revision exec fs rtf) frontier
                (rtp, w\<lparr>rounds := rounds w @ [frontier]\<rparr>) = (out, rtp1, w1)"
    for rtp frontier w out rtp1 w1
  proof (cases "out = None")
    case False
    then show ?thesis by auto
  next
    case True
    from i obtain rs where rs: "rounds w = rounds w0 @ rs" "tracks rtp0 rtp (concat rs)"
      "frontier = no_outstanding_predecessors rtp" "rounds_in_order rtp0 rs"
      "distinct (concat rs)" "set (concat rs) \<subseteq> set (dict_keys rtp0)"
      by (elim exE conjE)
    from pass_commits [OF p] obtain committed rest where
      c: "frontier = committed @ rest" "out = None \<longrightarrow> rest = []"
         "rtp1 = fold retire committed rtp"
         "rounds w1 = rounds (w\<lparr>rounds := rounds w @ [frontier]\<rparr>)"
      by (elim exE conjE)
    from c(1,2) True have cf: "committed = frontier" by simp
    have r1: "rounds w1 = rounds w0 @ (rs @ [frontier])"
      unfolding c(4) using rs(1) by simp
    have rtp1: "rtp1 = fold retire (no_outstanding_predecessors rtp) rtp"
      unfolding c(3) cf rs(3) ..
    have t1: "tracks rtp0 rtp1 (concat (rs @ [frontier]))"
      using tracks_round(1) [OF rs(2,4,5,6)] unfolding rtp1 rs(3) .
    have o1: "rounds_in_order rtp0 (rs @ [frontier])"
      using tracks_round(2) [OF rs(2,4,5,6)] unfolding rs(3) .
    have d1: "distinct (concat (rs @ [frontier]))"
      using tracks_round(3) [OF rs(2,4,5,6)] unfolding rs(3) .
    have s1: "set (concat (rs @ [frontier])) \<subseteq> set (dict_keys rtp0)"
      using tracks_round(4) [OF rs(2,4,5,6)] unfolding rs(3) .
    show ?thesis
    proof (cases "no_outstanding_predecessors rtp1 = []")
      case False
      have "?I rtp1 (no_outstanding_predecessors rtp1) w1"
        using r1 t1 o1 d1 s1 by (intro exI [of _ "rs @ [frontier]"] conjI refl)
      with False True show ?thesis by simp
    next
      case empty: True
      have "rtp1 = []"
      proof (rule ccontr)
        assume "rtp1 \<noteq> []"
        from tracks_has_eligible [OF t1 d0 ac this] empty show False by simp
      qed
      with t1 have "set (dict_keys rtp0) - set (concat (rs @ [frontier])) = {}"
        unfolding tracks_def by (simp add: dict_keys_def)
      with s1 have "set (concat (rs @ [frontier])) = set (dict_keys rtp0)" by blast
      with r1 o1 d1 have "?Q out w1"
        by (intro impI exI [of _ "rs @ [frontier]"] conjI)
      with empty show ?thesis by simp
    qed
  qed
  have "?Q (fst (apply_revisions_to_database exec fs rtf rtp0 (no_outstanding_predecessors rtp0) w0))
           (snd (apply_revisions_to_database exec fs rtf rtp0 (no_outstanding_predecessors rtp0) w0))"
    by (rule apply_loop_rule [where I = ?I and Q = ?Q, OF init pass])
  then show ?thesis unfolding run by simp
qed

text \<open>
  What the rounds are when the loop does what the specification describes. Let the
  predecessor graph of the migrations to apply be acyclic, let every declared predecessor
  be applied already or be one of them, and let no script list an unapplied predecessor
  twice. If \<^verbatim>\<open>apply_migrations\<close> returns normally, the rounds of the run hold each
  migration to apply exactly once, and each of them comes in a later round than every
  predecessor of it that was to apply too.
\<close>

theorem rounds_without_repeated_markers:
  assumes rd: "read_revisions fs (revision_table w) (pending fs w) [] = Inr rtp"
    and ac: "acyclic (set (declared_edges rtp))"
    and closed: "\<forall>(r, declared, outstanding) \<in> set rtp. \<forall>p \<in> set declared.
                   p \<in> set (revision_table w) \<or> p \<in> set (dict_keys rtp)"
    and once: "\<forall>(r, declared, outstanding) \<in> set rtp. distinct outstanding"
    and run: "apply_migrations exec fs w = (None, w')"
  shows "\<exists>rs. rounds w' = rounds w @ rs \<and> distinct (concat rs) \<and>
              set (concat rs) = set (dict_keys rtp) \<and> rounds_in_order rtp rs"
proof (cases "pending fs w = []")
  case True
  with run have "rounds w' = rounds w"
    by (auto simp: apply_migrations_unfold print_def)
  moreover from rd True have "rtp = []" by simp
  ultimately show ?thesis
    by (intro exI [of _ "[]"]) (simp add: rounds_in_order_def dict_keys_def)
next
  case False
  let ?w3 = "print (Found_to_apply (length (pending fs w)))
               (print (Found_applied (length (revision_table w))) (print Finding_applied w))"
  from run False rd have loop:
    "apply_revisions_to_database exec fs (pending fs w) rtp (no_outstanding_predecessors rtp) ?w3 =
       (None, w')"
    by (auto simp: apply_migrations_unfold split: if_splits)
  note rp = read_revisions_pending [OF rd]
  have dj: "set (dict_keys rtp) \<inter> set (revision_table w) = {}"
    unfolding rp(1) by (rule pending_not_applied)
  have t0: "tracks rtp rtp []"
    unfolding tracks_def
  proof (intro conjI ballI)
    show "distinct (dict_keys rtp)" by (rule rp(2))
    show "set (dict_keys rtp) = set (dict_keys rtp) - set []" by simp
    fix x
    assume x: "x \<in> set rtp"
    obtain r d out where xe: "x = (r, d, out)" by (cases x)
    from x rp(2) have "map_of rtp r = Some (d, out)"
      unfolding xe by (simp add: dict_keys_def)
    then have dd: "d = declared_of rtp r" by (simp add: declared_of_def)
    from rp(3) x have o: "out = filter (\<lambda>p. p \<notin> set (revision_table w)) d"
      unfolding xe by blast
    from once x have di: "distinct out" unfolding xe by blast
    from closed x have cl: "\<And>p. p \<in> set d \<Longrightarrow> p \<in> set (revision_table w) \<or> p \<in> set (dict_keys rtp)"
      unfolding xe by blast
    have "set out = {p \<in> set d. p \<in> set (dict_keys rtp)}"
      unfolding o using cl dj by auto
    with dd di show "case x of (r, d, out) \<Rightarrow>
        d = declared_of rtp r \<and> distinct out \<and> set out = {p \<in> set d. p \<in> set (dict_keys rtp)}"
      unfolding xe by simp
  qed
  from apply_revisions_to_database_rounds [OF t0 ac loop]
  show ?thesis by (simp add: print_def)
qed

theorem rounds_without_repeated_markers_witness:
  "\<exists>rtp rs. read_revisions fs_diamond [''Z''] (pending fs_diamond (world_with [''Z''] [])) [] = Inr rtp \<and>
     dict_keys rtp = [''A'', ''B'', ''C'', ''D''] \<and>
     acyclic (set (declared_edges rtp)) \<and>
     rounds (snd (apply_migrations log_exec fs_diamond (world_with [''Z''] []))) = rs \<and>
     distinct (concat rs) \<and> set (concat rs) = set (dict_keys rtp) \<and> rounds_in_order rtp rs"
proof -
  let ?w = "world_with [''Z''] [] :: string list world"
  let ?rtp = "[(''A'', [], []), (''B'', [''A''], [''A'']), (''C'', [''A''], [''A'']),
               (''D'', [''B'', ''C''], [''B'', ''C''])] :: predecessors"
  have rd: "read_revisions fs_diamond (revision_table ?w) (pending fs_diamond ?w) [] = Inr ?rtp"
    by code_simp
  have rz: "revision_table ?w = [''Z'']" by (simp add: world_with_def)
  have k: "dict_keys ?rtp = [''A'', ''B'', ''C'', ''D'']" by code_simp
  have ac: "acyclic (set (declared_edges ?rtp))" by code_simp
  have closed: "\<forall>(r, declared, outstanding) \<in> set ?rtp. \<forall>p \<in> set declared.
                   p \<in> set (revision_table ?w) \<or> p \<in> set (dict_keys ?rtp)"
    by code_simp
  have once: "\<forall>(r, declared, outstanding) \<in> set ?rtp. distinct outstanding"
    by code_simp
  have run: "apply_migrations log_exec fs_diamond ?w =
               (None, snd (apply_migrations log_exec fs_diamond ?w))"
    by code_simp
  have r0: "rounds ?w = []" by (simp add: world_with_def)
  from rounds_without_repeated_markers [OF rd ac closed once run]
  have "distinct (concat (rounds (snd (apply_migrations log_exec fs_diamond ?w)))) \<and>
        set (concat (rounds (snd (apply_migrations log_exec fs_diamond ?w)))) = set (dict_keys ?rtp) \<and>
        rounds_in_order ?rtp (rounds (snd (apply_migrations log_exec fs_diamond ?w)))"
    unfolding r0 by simp
  with rd [unfolded rz] k ac show ?thesis
    by (intro exI [of _ ?rtp] exI [of _ "rounds (snd (apply_migrations log_exec fs_diamond ?w))"] conjI)
       simp_all
qed

section \<open>Claim C2: rounds and declared predecessors\<close>

text \<open>
  C2 at an input where the code departs from it. \<^verbatim>\<open>B\<close> declares \<^verbatim>\<open>A\<close>, twice; the graph
  has the one edge from \<^verbatim>\<open>A\<close> to \<^verbatim>\<open>B\<close> and is acyclic, and \<^verbatim>\<open>A\<close> is pending. The run returns
  normally after the single round \<^verbatim>\<open>[A]\<close>: \<^verbatim>\<open>B\<close> is given no round. Line 225 removes one
  of the two entries \<^verbatim>\<open>A\<close> from the outstanding list of \<^verbatim>\<open>B\<close>, and nothing removes the other.
  Where no script repeats a marker, \<open>rounds_without_repeated_markers\<close> gives the rounds
  that C2 describes.
\<close>

theorem repeated_marker_gets_no_round:
  "read_revisions fs_twice [] (pending fs_twice (world_with [] [])) [] =
     Inr [(''A'', [], []), (''B'', [''A'', ''A''], [''A'', ''A''])] \<and>
   acyclic (set (declared_edges [(''A'', [], []), (''B'', [''A'', ''A''], [''A'', ''A''])])) \<and>
   apply_migrations log_exec fs_twice (world_with [] []) =
     (None, \<lparr>revision_table = [''A''], dependent_revision_table = [],
             store = [''create table a ();''],
             stdout = [Finding_applied, Found_applied 0, Found_to_apply 2, Applying ''A'', Done],
             journal = [([''A''], [])], rounds = [[''A'']]\<rparr>)"
  by code_simp

end
